theory Spec2Isabelle
  imports Main "HOL-Library.Multiset" "HOL-Library.Monad_Syntax"
begin

section \<open>Python list primitives\<close>

text \<open>
  The node methods of the B-tree raise only \<^verbatim>\<open>IndexError\<close> (a list read, write or pop out
  of range); the constructor of the tree raises \<^verbatim>\<open>ValueError\<close>. A node method is modelled
  as a function into \<open>option\<close>, where \<open>None\<close> stands for a raised \<^verbatim>\<open>IndexError\<close>; the
  constructor returns \<open>error + btree\<close>.

  Indices are natural numbers: the code never computes a negative index on the paths that
  are modelled (the places where the source writes \<^verbatim>\<open>idx - 1\<close> are guarded by
  \<^verbatim>\<open>idx != 0\<close>, and the one unguarded place is written out in \<open>fill\<close>).
\<close>

datatype error = ValueError | IndexError

text \<open>\<^verbatim>\<open>xs[i]\<close> for \<open>i \<ge> 0\<close>.\<close>

definition py_get :: "'a list \<Rightarrow> nat \<Rightarrow> 'a option" where
  "py_get xs i = (if i < length xs then Some (xs ! i) else None)"

text \<open>\<^verbatim>\<open>xs[-1]\<close>.\<close>

definition py_last :: "'a list \<Rightarrow> 'a option" where
  "py_last xs = (if xs = [] then None else Some (last xs))"

text \<open>\<^verbatim>\<open>xs.insert(i, x)\<close> for \<open>i \<ge> 0\<close>: an index beyond the end appends.\<close>

definition py_insert :: "nat \<Rightarrow> 'a \<Rightarrow> 'a list \<Rightarrow> 'a list" where
  "py_insert i x xs = take i xs @ x # drop i xs"

text \<open>\<^verbatim>\<open>xs.pop(i)\<close> for \<open>i \<ge> 0\<close>: the popped element and the remaining list.\<close>

definition py_pop :: "'a list \<Rightarrow> nat \<Rightarrow> ('a \<times> 'a list) option" where
  "py_pop xs i = (if i < length xs then Some (xs ! i, take i xs @ drop (Suc i) xs) else None)"

text \<open>\<^verbatim>\<open>xs.pop()\<close>.\<close>

definition py_pop_last :: "'a list \<Rightarrow> ('a \<times> 'a list) option" where
  "py_pop_last xs = (if xs = [] then None else Some (last xs, butlast xs))"

text \<open>\<^verbatim>\<open>xs[i] = v\<close> for \<open>i \<ge> 0\<close>.\<close>

definition py_set :: "'a list \<Rightarrow> nat \<Rightarrow> 'a \<Rightarrow> 'a list option" where
  "py_set xs i v = (if i < length xs then Some (xs[i := v]) else None)"

text \<open>
  \<^verbatim>\<open>bisect.bisect_left(a, x)\<close> of the standard library:
  \<^verbatim>\<open>
    lo, hi = 0, len(a)
    while lo < hi:
        mid = (lo + hi) // 2
        if a[mid] < x: lo = mid + 1
        else: hi = mid
    return lo
  \<close>
\<close>

function bisect_loop :: "int list \<Rightarrow> int \<Rightarrow> nat \<Rightarrow> nat \<Rightarrow> nat" where
  "bisect_loop a x lo hi =
     (if lo < hi then
        (let mid = (lo + hi) div 2 in
         if a ! mid < x then bisect_loop a x (mid + 1) hi else bisect_loop a x lo mid)
      else lo)"
  by pat_completeness auto
termination
  by (relation "measure (\<lambda>(a, x, lo, hi). hi - lo)") auto

declare bisect_loop.simps [simp del]

definition bisect_left :: "int list \<Rightarrow> int \<Rightarrow> nat" where
  "bisect_left a x = bisect_loop a x 0 (length a)"

section \<open>BTreeNode\<close>

text \<open>
  A node object with its four attributes. Nodes are never shared between two parents
  (a split builds its new sibling from slices, a merge drops the sibling it has emptied),
  so the object graph is a tree and a method that mutates \<^verbatim>\<open>self\<close> is modelled as a
  function returning the updated node. \<open>min_degree\<close> is a natural number: the tree's
  constructor rejects every value below 2 and each node copies the value of its tree.
\<close>

datatype node = Node (keys: "int list") (min_degree: nat) (children: "node list") (is_leaf: bool)

definition set_keys :: "node \<Rightarrow> int list \<Rightarrow> node" where
  "set_keys n ks = Node ks (min_degree n) (children n) (is_leaf n)"

definition set_children :: "node \<Rightarrow> node list \<Rightarrow> node" where
  "set_children n cs = Node (keys n) (min_degree n) cs (is_leaf n)"

text \<open>The child at index \<open>i\<close> replaced by its mutated state.\<close>

definition set_child :: "node \<Rightarrow> nat \<Rightarrow> node \<Rightarrow> node" where
  "set_child n i c = set_children n ((children n)[i := c])"

definition get_key_index :: "node \<Rightarrow> int \<Rightarrow> nat" where
  "get_key_index n key = bisect_left (keys n) key"

definition is_full :: "node \<Rightarrow> bool" where
  "is_full n = (int (length (keys n)) = 2 * int (min_degree n) - 1)"

text \<open>
  The two halves that \<^verbatim>\<open>split_child\<close> makes of the full child: \<open>new_child\<close> is the
  sibling built from the slices \<^verbatim>\<open>keys[t:]\<close> and \<^verbatim>\<open>children[t:]\<close>, \<open>existing_child_cut\<close>
  is the child after its keys and children were cut to \<^verbatim>\<open>keys[:t - 1]\<close> and
  \<^verbatim>\<open>children[:t]\<close>, where \<open>t\<close> is the parent's \<^verbatim>\<open>min_degree\<close>.
\<close>

definition new_child :: "nat \<Rightarrow> node \<Rightarrow> node" where
  "new_child t existing_child =
     Node (drop t (keys existing_child)) t
          (if \<not> is_leaf existing_child then drop t (children existing_child) else [])
          (is_leaf existing_child)"

definition existing_child_cut :: "nat \<Rightarrow> node \<Rightarrow> node" where
  "existing_child_cut t existing_child =
     Node (take (t - 1) (keys existing_child)) (min_degree existing_child)
          (if \<not> is_leaf existing_child then take t (children existing_child)
           else children existing_child)
          (is_leaf existing_child)"

definition split_child :: "node \<Rightarrow> nat \<Rightarrow> node option" where
  "split_child n child_index = do {
     existing_child \<leftarrow> py_get (children n) child_index;
     middle_key \<leftarrow> py_get (keys existing_child) (min_degree n - 1);
     Some (Node (py_insert child_index middle_key (keys n)) (min_degree n)
             (py_insert (child_index + 1) (new_child (min_degree n) existing_child)
                ((children n)[child_index := existing_child_cut (min_degree n) existing_child]))
             (is_leaf n))
   }"

lemma size_nth_children:
  "i < length cs \<Longrightarrow> size (cs ! i) < Suc (size_list size cs)"
proof -
  assume "i < length cs"
  then have "cs ! i \<in> set cs" by (rule nth_mem)
  then have "size (cs ! i) \<le> size_list size cs" by (rule size_list_estimation') simp
  then show ?thesis by simp
qed

lemma size_list_take_le: "size_list f (take k xs) \<le> size_list f xs"
proof (induction xs arbitrary: k)
  case Nil
  then show ?case by simp
next
  case (Cons a xs)
  show ?case using Cons [of "k - 1"] by (cases k) auto
qed

lemma size_list_drop_le: "size_list f (drop k xs) \<le> size_list f xs"
proof (induction xs arbitrary: k)
  case Nil
  then show ?case by simp
next
  case (Cons a xs)
  show ?case using Cons [of "k - 1"] by (cases k) auto
qed

lemma size_child_less: "i < length (children n) \<Longrightarrow> size (children n ! i) < size n"
  by (cases n) (simp add: size_nth_children)

lemma size_mem_children: "c \<in> set (children n) \<Longrightarrow> size c < size n"
proof -
  assume "c \<in> set (children n)"
  then have "size c \<le> size_list size (children n)" by (rule size_list_estimation') simp
  then show ?thesis by (cases n) simp
qed

lemma set_py_insert: "set (py_insert i x xs) \<subseteq> insert x (set xs)"
proof -
  have "set (take i xs) \<subseteq> set xs" "set (drop i xs) \<subseteq> set xs"
    by (rule set_take_subset, rule set_drop_subset)
  then show ?thesis unfolding py_insert_def by auto
qed

lemma size_new_child: "size (new_child t e) \<le> size e"
  by (cases e) (simp add: new_child_def size_list_drop_le)

lemma size_existing_child_cut: "size (existing_child_cut t e) \<le> size e"
  by (cases e) (simp add: existing_child_cut_def size_list_take_le)

lemma split_child_SomeD:
  assumes "split_child n i = Some n1"
  shows "i < length (children n)"
    and "min_degree n - 1 < length (keys (children n ! i))"
    and "n1 = Node (py_insert i (keys (children n ! i) ! (min_degree n - 1)) (keys n)) (min_degree n)
             (py_insert (i + 1) (new_child (min_degree n) (children n ! i))
                ((children n)[i := existing_child_cut (min_degree n) (children n ! i)]))
             (is_leaf n)"
  using assms unfolding split_child_def py_get_def
  by (simp_all add: bind_eq_Some_conv split: if_splits)

lemma split_child_size:
  assumes "split_child n i = Some n1" "c \<in> set (children n1)"
  shows "size c < size n"
proof -
  let ?e = "children n ! i"
  note d = split_child_SomeD [OF assms(1)]
  have e_lt: "size ?e < size n" using d(1) by (rule size_child_less)
  have "children n1 = py_insert (i + 1) (new_child (min_degree n) ?e)
                ((children n)[i := existing_child_cut (min_degree n) ?e])"
    by (subst d(3)) simp
  then have "c \<in> insert (new_child (min_degree n) ?e)
      (set ((children n)[i := existing_child_cut (min_degree n) ?e]))"
    using assms(2) set_py_insert [of "i + 1" "new_child (min_degree n) ?e"
        "(children n)[i := existing_child_cut (min_degree n) ?e]"] by auto
  then have "c = new_child (min_degree n) ?e \<or> c = existing_child_cut (min_degree n) ?e
      \<or> c \<in> set (children n)"
    using set_update_subset_insert [of "children n" i "existing_child_cut (min_degree n) ?e"]
    by blast
  then show ?thesis
  proof (elim disjE)
    assume "c = new_child (min_degree n) ?e"
    then show ?thesis using size_new_child [of "min_degree n" ?e] e_lt by simp
  next
    assume "c = existing_child_cut (min_degree n) ?e"
    then show ?thesis using size_existing_child_cut [of "min_degree n" ?e] e_lt by simp
  next
    assume "c \<in> set (children n)"
    then show ?thesis by (rule size_mem_children)
  qed
qed

lemma split_child_size_nth:
  "split_child n i = Some n1 \<Longrightarrow> j < length (children n1) \<Longrightarrow> size (children n1 ! j) < size n"
  by (erule split_child_size) (rule nth_mem)

function insert_non_full :: "node \<Rightarrow> int \<Rightarrow> node option" where
  "insert_non_full n key =
     (if is_leaf n then
        Some (set_keys n (py_insert (get_key_index n key) key (keys n)))
      else do {
        let child_index = get_key_index n key;
        c \<leftarrow> py_get (children n) child_index;
        if is_full c then do {
          n1 \<leftarrow> split_child n child_index;
          k \<leftarrow> py_get (keys n1) child_index;
          let child_index' = (if key > k then child_index + 1 else child_index);
          c1 \<leftarrow> py_get (children n1) child_index';
          c1' \<leftarrow> insert_non_full c1 key;
          Some (set_child n1 child_index' c1')
        } else do {
          c' \<leftarrow> insert_non_full c key;
          Some (set_child n child_index c')
        }
      })"
  by pat_completeness auto
termination
proof (relation "measure (\<lambda>(n, key). size n)", goal_cases)
  case 1
  show ?case by simp
next
  case (2 n key child_index c n1 k child_index' c1)
  then show ?case
    by (auto simp: py_get_def split_child_size_nth split: if_splits)
next
  case (3 n key child_index c)
  then show ?case
    by (auto simp: py_get_def size_child_less split: if_splits)
qed

declare insert_non_full.simps [simp del]

text \<open>
  \<^verbatim>\<open>traverse\<close> prints the keys; the model returns the printed sequence. \<open>traverse_from\<close>
  is the loop \<^verbatim>\<open>for i in range(len(self.keys))\<close> followed by the traversal of
  \<^verbatim>\<open>children[len(self.keys)]\<close>, running along both lists: a missing child is the
  \<^verbatim>\<open>IndexError\<close> of \<^verbatim>\<open>self.children[i]\<close>, children beyond the last one used are ignored.
\<close>

fun traverse :: "node \<Rightarrow> int list option"
  and traverse_from :: "node list \<Rightarrow> int list \<Rightarrow> int list option" where
  "traverse (Node ks t cs leaf) = (if leaf then Some ks else traverse_from cs ks)"
| "traverse_from [] ks = None"
| "traverse_from (c # cs) [] = traverse c"
| "traverse_from (c # cs) (k # ks) = do {
     out \<leftarrow> traverse c;
     rest \<leftarrow> traverse_from cs ks;
     Some (out @ k # rest)
   }"

text \<open>
  \<^verbatim>\<open>search\<close> returns the node that holds the key, or Python's \<^verbatim>\<open>None\<close>: the inner
  \<open>option\<close> is that result, the outer one the \<^verbatim>\<open>IndexError\<close>.
\<close>

function search :: "node \<Rightarrow> int \<Rightarrow> node option option" where
  "search n key =
     (if keys n = [] then Some None
      else let idx = get_key_index n key in
        if idx < length (keys n) \<and> keys n ! idx = key then Some (Some n)
        else if is_leaf n then Some None
        else do {
          c \<leftarrow> py_get (children n) idx;
          search c key
        })"
  by pat_completeness auto
termination
  by (relation "measure (\<lambda>(n, key). size n)")
     (auto simp: py_get_def size_child_less split: if_splits)

declare search.simps [simp del]

function get_predecessor :: "node \<Rightarrow> int option" where
  "get_predecessor n =
     (if \<not> is_leaf n then do {
        c \<leftarrow> py_last (children n);
        get_predecessor c
      } else py_last (keys n))"
  by pat_completeness auto
termination
  by (relation "measure size")
     (auto simp: py_last_def size_mem_children split: if_splits)

declare get_predecessor.simps [simp del]

function get_successor :: "node \<Rightarrow> int option" where
  "get_successor n =
     (if \<not> is_leaf n then do {
        c \<leftarrow> py_get (children n) 0;
        get_successor c
      } else py_get (keys n) 0)"
  by pat_completeness auto
termination
  by (relation "measure size")
     (auto simp: py_get_def size_child_less split: if_splits)

declare get_successor.simps [simp del]

text \<open>
  \<^verbatim>\<open>borrow_from_prev(idx)\<close> is called by \<^verbatim>\<open>fill\<close> only, behind the test \<^verbatim>\<open>idx != 0\<close>.
  The case \<open>idx = 0\<close>, where Python's \<^verbatim>\<open>idx - 1\<close> would wrap around to the last element,
  is outside the model and yields \<open>None\<close>.
\<close>

definition borrow_from_prev :: "node \<Rightarrow> nat \<Rightarrow> node option" where
  "borrow_from_prev n idx =
     (if idx = 0 then None
      else do {
        child \<leftarrow> py_get (children n) idx;
        sibling \<leftarrow> py_get (children n) (idx - 1);
        k \<leftarrow> py_get (keys n) (idx - 1);
        let child1 = set_keys child (py_insert 0 k (keys child));
        (child2, sibling1) \<leftarrow>
          (if \<not> is_leaf child then do {
             (c, cs) \<leftarrow> py_pop_last (children sibling);
             Some (set_children child1 (py_insert 0 c (children child1)), set_children sibling cs)
           } else Some (child1, sibling));
        (sk, sibling_keys) \<leftarrow> py_pop_last (keys sibling1);
        self_keys \<leftarrow> py_set (keys n) (idx - 1) sk;
        Some (Node self_keys (min_degree n)
                ((children n)[idx := child2, idx - 1 := set_keys sibling1 sibling_keys])
                (is_leaf n))
      })"

definition borrow_from_next :: "node \<Rightarrow> nat \<Rightarrow> node option" where
  "borrow_from_next n idx = do {
     child \<leftarrow> py_get (children n) idx;
     sibling \<leftarrow> py_get (children n) (idx + 1);
     k \<leftarrow> py_get (keys n) idx;
     let child1 = set_keys child (keys child @ [k]);
     (child2, sibling1) \<leftarrow>
       (if \<not> is_leaf child then do {
          (c, cs) \<leftarrow> py_pop (children sibling) 0;
          Some (set_children child1 (children child1 @ [c]), set_children sibling cs)
        } else Some (child1, sibling));
     (sk, sibling_keys) \<leftarrow> py_pop (keys sibling1) 0;
     self_keys \<leftarrow> py_set (keys n) idx sk;
     Some (Node self_keys (min_degree n)
             ((children n)[idx := child2, idx + 1 := set_keys sibling1 sibling_keys])
             (is_leaf n))
   }"

definition merge :: "node \<Rightarrow> nat \<Rightarrow> node option" where
  "merge n idx = do {
     child \<leftarrow> py_get (children n) idx;
     sibling \<leftarrow> py_get (children n) (idx + 1);
     (k, self_keys) \<leftarrow> py_pop (keys n) idx;
     let child1 = set_keys child (keys child @ [k] @ keys sibling);
     let child2 = (if \<not> is_leaf child then set_children child1 (children child1 @ children sibling)
                   else child1);
     (popped, self_children) \<leftarrow> py_pop ((children n)[idx := child2]) (idx + 1);
     Some (Node self_keys (min_degree n) self_children (is_leaf n))
   }"

text \<open>
  In the last branch \<^verbatim>\<open>merge(idx - 1)\<close> with \<open>idx = 0\<close> is reached only when
  \<^verbatim>\<open>len(self.keys) == 0\<close>; then \<^verbatim>\<open>merge(-1)\<close> raises \<^verbatim>\<open>IndexError\<close> (at
  \<^verbatim>\<open>self.children[-1]\<close> if there is no child, else at \<^verbatim>\<open>self.keys.pop(-1)\<close> on the
  empty key list), which is written out.
\<close>

definition fill :: "node \<Rightarrow> nat \<Rightarrow> node option" where
  "fill n idx = do {
     prev_has_spare \<leftarrow>
       (if idx \<noteq> 0 then do {
          p \<leftarrow> py_get (children n) (idx - 1);
          Some (length (keys p) \<ge> min_degree n)
        } else Some False);
     if prev_has_spare then borrow_from_prev n idx
     else do {
       next_has_spare \<leftarrow>
         (if idx \<noteq> length (keys n) then do {
            s \<leftarrow> py_get (children n) (idx + 1);
            Some (length (keys s) \<ge> min_degree n)
          } else Some False);
       if next_has_spare then borrow_from_next n idx
       else if idx \<noteq> length (keys n) then merge n idx
       else if idx = 0 then None
       else merge n (idx - 1)
     }
   }"

definition remove_from_leaf :: "node \<Rightarrow> nat \<Rightarrow> node option" where
  "remove_from_leaf n idx = do {
     (k, self_keys) \<leftarrow> py_pop (keys n) idx;
     Some (set_keys n self_keys)
   }"

subsection \<open>Termination of the deletion routines\<close>


lemma nth_size_list: "j < length xs \<Longrightarrow> Suc (f (xs ! j)) \<le> size_list f xs"
proof (induction xs arbitrary: j)
  case Nil
  then show ?case by simp
next
  case (Cons a xs)
  show ?case
  proof (cases j)
    case 0
    then show ?thesis by simp
  next
    case (Suc j')
    then show ?thesis using Cons.IH [of j'] Cons.prems by simp
  qed
qed

lemma two_nth_size_list:
  "i < j \<Longrightarrow> j < length xs \<Longrightarrow> f (xs ! i) + f (xs ! j) + 2 \<le> size_list f xs"
proof (induction xs arbitrary: i j)
  case Nil
  then show ?case by simp
next
  case (Cons a xs)
  from Cons.prems obtain j' where j: "j = Suc j'" "j' < length xs" by (cases j) auto
  show ?case
  proof (cases i)
    case 0
    then show ?thesis using nth_size_list [OF j(2), of f] j by simp
  next
    case (Suc i')
    then show ?thesis using Cons.IH [of i' j'] Cons.prems j by simp
  qed
qed

lemma size_children: "size n = Suc (size_list size (children n))"
  by (cases n) simp

lemma mem_update2D: "c \<in> set (xs[i := a, j := b]) \<Longrightarrow> c = a \<or> c = b \<or> c \<in> set xs"
  using set_update_subset_insert [of "xs[i := a]" j b] set_update_subset_insert [of xs i a]
  by blast

text \<open>The states of the two children after a borrow or a merge.\<close>

definition merged_child :: "node \<Rightarrow> int \<Rightarrow> node \<Rightarrow> node" where
  "merged_child child k sibling =
     Node (keys child @ k # keys sibling) (min_degree child)
       (if \<not> is_leaf child then children child @ children sibling else children child)
       (is_leaf child)"

definition prev_child :: "node \<Rightarrow> int \<Rightarrow> node \<Rightarrow> node" where
  "prev_child child k sibling =
     Node (k # keys child) (min_degree child)
       (if \<not> is_leaf child then last (children sibling) # children child else children child)
       (is_leaf child)"

definition prev_sibling :: "node \<Rightarrow> node \<Rightarrow> node" where
  "prev_sibling child sibling =
     Node (butlast (keys sibling)) (min_degree sibling)
       (if \<not> is_leaf child then butlast (children sibling) else children sibling)
       (is_leaf sibling)"

definition next_child :: "node \<Rightarrow> int \<Rightarrow> node \<Rightarrow> node" where
  "next_child child k sibling =
     Node (keys child @ [k]) (min_degree child)
       (if \<not> is_leaf child then children child @ [hd (children sibling)] else children child)
       (is_leaf child)"

definition next_sibling :: "node \<Rightarrow> node \<Rightarrow> node" where
  "next_sibling child sibling =
     Node (tl (keys sibling)) (min_degree sibling)
       (if \<not> is_leaf child then tl (children sibling) else children sibling)
       (is_leaf sibling)"

lemma merge_eq_Some:
  "merge n idx = Some n1 \<longleftrightarrow>
     idx + 1 < length (children n) \<and> idx < length (keys n) \<and>
     n1 = Node (take idx (keys n) @ drop (Suc idx) (keys n)) (min_degree n)
            (take idx (children n) @
               merged_child (children n ! idx) (keys n ! idx) (children n ! (idx + 1)) #
               drop (idx + 2) (children n))
            (is_leaf n)"
  by (auto simp: merge_def py_get_def py_pop_def bind_eq_Some_conv merged_child_def
      set_keys_def set_children_def take_Suc_conv_app_nth)

lemma borrow_from_prev_eq_Some:
  "borrow_from_prev n idx = Some n1 \<longleftrightarrow>
     idx \<noteq> 0 \<and> idx < length (children n) \<and> idx - 1 < length (keys n) \<and>
     (\<not> is_leaf (children n ! idx) \<longrightarrow> children (children n ! (idx - 1)) \<noteq> []) \<and>
     keys (children n ! (idx - 1)) \<noteq> [] \<and>
     n1 = Node ((keys n)[idx - 1 := last (keys (children n ! (idx - 1)))]) (min_degree n)
            ((children n)[idx := prev_child (children n ! idx) (keys n ! (idx - 1))
                                   (children n ! (idx - 1)),
                          idx - 1 := prev_sibling (children n ! idx) (children n ! (idx - 1))])
            (is_leaf n)"
  by (auto simp: borrow_from_prev_def py_get_def py_pop_last_def py_set_def py_insert_def
      bind_eq_Some_conv prev_child_def prev_sibling_def set_keys_def set_children_def)

lemma borrow_from_next_eq_Some:
  "borrow_from_next n idx = Some n1 \<longleftrightarrow>
     idx + 1 < length (children n) \<and> idx < length (keys n) \<and>
     (\<not> is_leaf (children n ! idx) \<longrightarrow> children (children n ! (idx + 1)) \<noteq> []) \<and>
     keys (children n ! (idx + 1)) \<noteq> [] \<and>
     n1 = Node ((keys n)[idx := hd (keys (children n ! (idx + 1)))]) (min_degree n)
            ((children n)[idx := next_child (children n ! idx) (keys n ! idx)
                                   (children n ! (idx + 1)),
                          idx + 1 := next_sibling (children n ! idx) (children n ! (idx + 1))])
            (is_leaf n)"
  by (auto simp: borrow_from_next_def py_get_def py_pop_def py_set_def
      bind_eq_Some_conv next_child_def next_sibling_def set_keys_def set_children_def
      hd_conv_nth drop_Suc)


lemma size_merged_child: "size (merged_child c k s) < size c + size s"
  by (simp add: merged_child_def size_children [of c] size_children [of s])

lemma size_last_butlast:
  "xs \<noteq> [] \<Longrightarrow> size_list f xs = Suc (f (last xs) + size_list f (butlast xs))"
  by (induction xs) auto

lemma size_hd_tl:
  "xs \<noteq> [] \<Longrightarrow> size_list f xs = Suc (f (hd xs) + size_list f (tl xs))"
  by (cases xs) auto

lemma size_prev_child:
  "\<not> is_leaf c \<longrightarrow> children s \<noteq> [] \<Longrightarrow> size (prev_child c k s) < size c + size s"
  by (auto simp: prev_child_def size_children [of c] size_children [of s] size_last_butlast)

lemma size_prev_sibling: "size (prev_sibling c s) \<le> size s"
  by (simp add: prev_sibling_def size_children [of s] butlast_conv_take size_list_take_le)

lemma size_next_child:
  "\<not> is_leaf c \<longrightarrow> children s \<noteq> [] \<Longrightarrow> size (next_child c k s) < size c + size s"
  by (auto simp: next_child_def size_children [of c] size_children [of s] size_hd_tl)

lemma size_next_sibling: "size (next_sibling c s) \<le> size s"
  by (simp add: next_sibling_def size_children [of s] tl_def size_list_drop_le [of _ 1, simplified drop_Suc drop_0]
      split: list.splits)

lemma two_children_size:
  "i < j \<Longrightarrow> j < length (children n) \<Longrightarrow> size (children n ! i) + size (children n ! j) < size n"
  using two_nth_size_list [of i j "children n" size] by (simp add: size_children [of n])

lemma merge_size:
  assumes "merge n idx = Some n1" "c \<in> set (children n1)"
  shows "size c < size n"
proof -
  let ?M = "merged_child (children n ! idx) (keys n ! idx) (children n ! (idx + 1))"
  from assms(1) have len: "idx + 1 < length (children n)"
    and n1: "children n1 = take idx (children n) @ ?M # drop (idx + 2) (children n)"
    by (simp_all add: merge_eq_Some)
  have "set (take idx (children n)) \<subseteq> set (children n)"
    "set (drop (idx + 2) (children n)) \<subseteq> set (children n)"
    by (rule set_take_subset, rule set_drop_subset)
  with assms(2) have "c = ?M \<or> c \<in> set (children n)"
    unfolding n1 by auto
  moreover have "size ?M < size n"
    using size_merged_child [of "children n ! idx" "keys n ! idx" "children n ! (idx + 1)"]
      two_children_size [of idx "idx + 1" n] len by simp
  ultimately show ?thesis
    using size_mem_children [of c n] by auto
qed

lemma borrow_from_prev_size:
  assumes "borrow_from_prev n idx = Some n1" "c \<in> set (children n1)"
  shows "size c < size n"
proof -
  let ?child = "children n ! idx" and ?sib = "children n ! (idx - 1)"
  let ?k = "keys n ! (idx - 1)"
  from assms(1) have idx: "idx \<noteq> 0" and len: "idx < length (children n)"
    and ne: "\<not> is_leaf ?child \<longrightarrow> children ?sib \<noteq> []"
    and n1: "children n1 = (children n)[idx := prev_child ?child ?k ?sib,
          idx - 1 := prev_sibling ?child ?sib]"
    by (simp_all add: borrow_from_prev_eq_Some)
  have two: "size ?child + size ?sib < size n"
    using two_children_size [of "idx - 1" idx n] idx len by simp
  from assms(2) have "c = prev_child ?child ?k ?sib \<or> c = prev_sibling ?child ?sib
       \<or> c \<in> set (children n)"
    unfolding n1 by (rule mem_update2D)
  then show ?thesis
    using two size_mem_children [of c n] size_prev_child [OF ne, of ?k]
      size_prev_sibling [of ?child ?sib] by auto
qed

lemma borrow_from_next_size:
  assumes "borrow_from_next n idx = Some n1" "c \<in> set (children n1)"
  shows "size c < size n"
proof -
  let ?child = "children n ! idx" and ?sib = "children n ! (idx + 1)"
  let ?k = "keys n ! idx"
  from assms(1) have len: "idx + 1 < length (children n)"
    and ne: "\<not> is_leaf ?child \<longrightarrow> children ?sib \<noteq> []"
    and n1: "children n1 = (children n)[idx := next_child ?child ?k ?sib,
          idx + 1 := next_sibling ?child ?sib]"
    by (simp_all add: borrow_from_next_eq_Some)
  have two: "size ?child + size ?sib < size n"
    using two_children_size [of idx "idx + 1" n] len by simp
  from assms(2) have "c = next_child ?child ?k ?sib \<or> c = next_sibling ?child ?sib
       \<or> c \<in> set (children n)"
    unfolding n1 by (rule mem_update2D)
  then show ?thesis
    using two size_mem_children [of c n] size_next_child [OF ne, of ?k]
      size_next_sibling [of ?child ?sib] by auto
qed

lemma fill_cases:
  "fill n idx = Some n1 \<Longrightarrow> borrow_from_prev n idx = Some n1 \<or> borrow_from_next n idx = Some n1
     \<or> merge n idx = Some n1 \<or> merge n (idx - 1) = Some n1"
  by (auto simp: fill_def bind_eq_Some_conv split: if_splits)

lemma fill_size:
  assumes "fill n idx = Some n1" "c \<in> set (children n1)"
  shows "size c < size n"
  using fill_cases [OF assms(1)] assms(2)
    borrow_from_prev_size borrow_from_next_size merge_size by blast

lemma py_get_size: "py_get (children n) i = Some c \<Longrightarrow> size c < size n"
  by (auto simp: py_get_def size_child_less split: if_splits)

subsection \<open>Deletion, package \<^verbatim>\<open>btree\<close>\<close>

function remove_from_non_leaf :: "node \<Rightarrow> nat \<Rightarrow> node option"
  and delete_internal :: "node \<Rightarrow> int \<Rightarrow> node option" where
  "remove_from_non_leaf n idx = do {
     key \<leftarrow> py_get (keys n) idx;
     left \<leftarrow> py_get (children n) idx;
     if length (keys left) \<ge> min_degree n then do {
       pred \<leftarrow> get_predecessor left;
       left' \<leftarrow> delete_internal left pred;
       Some (Node ((keys n)[idx := pred]) (min_degree n) ((children n)[idx := left']) (is_leaf n))
     } else do {
       right \<leftarrow> py_get (children n) (idx + 1);
       if length (keys right) \<ge> min_degree n then do {
         succ \<leftarrow> get_successor right;
         right' \<leftarrow> delete_internal right succ;
         Some (Node ((keys n)[idx := succ]) (min_degree n) ((children n)[idx + 1 := right'])
                 (is_leaf n))
       } else do {
         n1 \<leftarrow> merge n idx;
         merged \<leftarrow> py_get (children n1) idx;
         merged' \<leftarrow> delete_internal merged key;
         Some (set_child n1 idx merged')
       }
     }
   }"
| "delete_internal n key =
     (let idx = get_key_index n key in
      if idx < length (keys n) \<and> keys n ! idx = key then
        (if is_leaf n then remove_from_leaf n idx else remove_from_non_leaf n idx)
      else do {
        let flag = (idx = length (keys n));
        c \<leftarrow> py_get (children n) idx;
        n1 \<leftarrow> (if length (keys c) < min_degree n then fill n idx else Some n);
        let j = (if flag \<and> idx > length (keys n1) then idx - 1 else idx);
        cj \<leftarrow> py_get (children n1) j;
        cj' \<leftarrow> delete_internal cj key;
        Some (set_child n1 j cj')
      })"
  by pat_completeness auto
termination
proof (relation "measure (\<lambda>x. case x of Inl (n, idx) \<Rightarrow> 2 * size n | Inr (n, key) \<Rightarrow> 2 * size n + 1)",
    goal_cases)
  case 1
  show ?case by simp
next
  case (2 n idx key left pred)
  then have "size left < size n" using py_get_size by blast
  then show ?case by simp
next
  case (3 n idx key left right succ)
  then have "size right < size n" using py_get_size by blast
  then show ?case by simp
next
  case (4 n idx key left right n1 merged)
  then have "merged \<in> set (children n1)" by (auto simp: py_get_def split: if_splits)
  with 4 have "size merged < size n" using merge_size by blast
  then show ?case by simp
next
  case (5 n key idx)
  then show ?case by simp
next
  case (6 n key idx flag c n1 j cj)
  then have "cj \<in> set (children n1)" by (auto simp: py_get_def split: if_splits)
  with 6 have "size cj < size n" using fill_size size_mem_children by (auto split: if_splits)
  then show ?case by simp
qed

declare remove_from_non_leaf.simps [simp del] delete_internal.simps [simp del]

text \<open>
  \<^verbatim>\<open>BTreeNode.delete\<close>: \<^verbatim>\<open>if not self.search(key): return\<close>. A node object is always
  truthy, so the test fails exactly when \<^verbatim>\<open>search\<close> returns \<^verbatim>\<open>None\<close>.
\<close>

definition node_delete :: "node \<Rightarrow> int \<Rightarrow> node option" where
  "node_delete n key = do {
     found \<leftarrow> search n key;
     if found = None then Some n else delete_internal n key
   }"

subsection \<open>Deletion, \<^verbatim>\<open>main.py\<close>\<close>

text \<open>
  The node class of \<^verbatim>\<open>main.py\<close> has the same methods, word for word, except for deletion:
  its \<^verbatim>\<open>delete\<close> does not search first, it descends (filling children on the way) and
  returns at a leaf that does not hold the key.
\<close>

function main_remove_from_non_leaf :: "node \<Rightarrow> nat \<Rightarrow> node option"
  and main_node_delete :: "node \<Rightarrow> int \<Rightarrow> node option" where
  "main_remove_from_non_leaf n idx = do {
     key \<leftarrow> py_get (keys n) idx;
     left \<leftarrow> py_get (children n) idx;
     if length (keys left) \<ge> min_degree n then do {
       pred \<leftarrow> get_predecessor left;
       left' \<leftarrow> main_node_delete left pred;
       Some (Node ((keys n)[idx := pred]) (min_degree n) ((children n)[idx := left']) (is_leaf n))
     } else do {
       right \<leftarrow> py_get (children n) (idx + 1);
       if length (keys right) \<ge> min_degree n then do {
         succ \<leftarrow> get_successor right;
         right' \<leftarrow> main_node_delete right succ;
         Some (Node ((keys n)[idx := succ]) (min_degree n) ((children n)[idx + 1 := right'])
                 (is_leaf n))
       } else do {
         n1 \<leftarrow> merge n idx;
         merged \<leftarrow> py_get (children n1) idx;
         merged' \<leftarrow> main_node_delete merged key;
         Some (set_child n1 idx merged')
       }
     }
   }"
| "main_node_delete n key =
     (let idx = get_key_index n key in
      if idx < length (keys n) \<and> keys n ! idx = key then
        (if is_leaf n then remove_from_leaf n idx else main_remove_from_non_leaf n idx)
      else if is_leaf n then Some n
      else do {
        let flag = (idx = length (keys n));
        c \<leftarrow> py_get (children n) idx;
        n1 \<leftarrow> (if length (keys c) < min_degree n then fill n idx else Some n);
        let j = (if flag \<and> idx > length (keys n1) then idx - 1 else idx);
        cj \<leftarrow> py_get (children n1) j;
        cj' \<leftarrow> main_node_delete cj key;
        Some (set_child n1 j cj')
      })"
  by pat_completeness auto
termination
proof (relation "measure (\<lambda>x. case x of Inl (n, idx) \<Rightarrow> 2 * size n | Inr (n, key) \<Rightarrow> 2 * size n + 1)",
    goal_cases)
  case 1
  show ?case by simp
next
  case (2 n idx key left pred)
  then have "size left < size n" using py_get_size by blast
  then show ?case by simp
next
  case (3 n idx key left right succ)
  then have "size right < size n" using py_get_size by blast
  then show ?case by simp
next
  case (4 n idx key left right n1 merged)
  then have "merged \<in> set (children n1)" by (auto simp: py_get_def split: if_splits)
  with 4 have "size merged < size n" using merge_size by blast
  then show ?case by simp
next
  case (5 n key idx)
  then show ?case by simp
next
  case (6 n key idx flag c n1 j cj)
  then have "cj \<in> set (children n1)" by (auto simp: py_get_def split: if_splits)
  with 6 have "size cj < size n" using fill_size size_mem_children by (auto split: if_splits)
  then show ?case by simp
qed

declare main_remove_from_non_leaf.simps [simp del] main_node_delete.simps [simp del]

section \<open>BTree\<close>

record btree =
  root :: node
  tree_min_degree :: nat

text \<open>\<^verbatim>\<open>BTree.__init__\<close>, the same in both files.\<close>

definition BTree_init :: "int \<Rightarrow> error + btree" where
  "BTree_init md =
     (if md < 2 then Inl ValueError
      else Inr \<lparr>root = Node [] (nat md) [] True, tree_min_degree = nat md\<rparr>)"

subsection \<open>The class of the package \<^verbatim>\<open>btree\<close>\<close>

definition BTree_traverse :: "btree \<Rightarrow> int list option" where
  "BTree_traverse T = traverse (root T)"

definition BTree_search :: "btree \<Rightarrow> int \<Rightarrow> node option option" where
  "BTree_search T key = (if keys (root T) = [] then Some None else search (root T) key)"

definition BTree_insert :: "btree \<Rightarrow> int \<Rightarrow> btree option" where
  "BTree_insert T key = do {
     r \<leftarrow> (if is_full (root T) then
            split_child (Node [] (tree_min_degree T) [root T] False) 0
          else Some (root T));
     r' \<leftarrow> insert_non_full r key;
     Some (T\<lparr>root := r'\<rparr>)
   }"

text \<open>
  \<^verbatim>\<open>BTree.delete\<close>: the guard \<^verbatim>\<open>if not self.root: return\<close> never fires, the root is always
  a node object.
\<close>

definition BTree_delete :: "btree \<Rightarrow> int \<Rightarrow> btree option" where
  "BTree_delete T key = do {
     r \<leftarrow> node_delete (root T) key;
     if length (keys r) = 0 \<and> \<not> is_leaf r then do {
       c \<leftarrow> py_get (children r) 0;
       Some (T\<lparr>root := c\<rparr>)
     } else Some (T\<lparr>root := r\<rparr>)
   }"

subsection \<open>The class of \<^verbatim>\<open>main.py\<close>\<close>

text \<open>The guards \<^verbatim>\<open>if self.root\<close> and \<^verbatim>\<open>if not self.root\<close> of \<^verbatim>\<open>main.py\<close> never fire.\<close>

definition main_BTree_traverse :: "btree \<Rightarrow> int list option" where
  "main_BTree_traverse T = traverse (root T)"

definition main_BTree_search :: "btree \<Rightarrow> int \<Rightarrow> node option option" where
  "main_BTree_search T key = search (root T) key"

definition main_BTree_insert :: "btree \<Rightarrow> int \<Rightarrow> btree option" where
  "main_BTree_insert T key =
     (if is_full (root T) then do {
        new_root \<leftarrow> split_child (Node [] (tree_min_degree T) [root T] False) 0;
        new_root' \<leftarrow> insert_non_full new_root key;
        Some (T\<lparr>root := new_root'\<rparr>)
      } else do {
        r' \<leftarrow> insert_non_full (root T) key;
        Some (T\<lparr>root := r'\<rparr>)
      })"

definition main_BTree_delete :: "btree \<Rightarrow> int \<Rightarrow> btree option" where
  "main_BTree_delete T key = do {
     r \<leftarrow> main_node_delete (root T) key;
     if length (keys r) = 0 \<and> \<not> is_leaf r then do {
       c \<leftarrow> py_get (children r) 0;
       Some (T\<lparr>root := c\<rparr>)
     } else Some (T\<lparr>root := r\<rparr>)
   }"

section \<open>Binary search on a sorted key list\<close>

lemma bisect_loop_sorted:
  "sorted a \<Longrightarrow> lo \<le> hi \<Longrightarrow> hi \<le> length a \<Longrightarrow> (\<forall>i<lo. a ! i < x) \<Longrightarrow>
   (\<forall>i. hi \<le> i \<and> i < length a \<longrightarrow> x \<le> a ! i) \<Longrightarrow>
   lo \<le> bisect_loop a x lo hi \<and> bisect_loop a x lo hi \<le> hi \<and>
   (\<forall>i<bisect_loop a x lo hi. a ! i < x) \<and>
   (\<forall>i. bisect_loop a x lo hi \<le> i \<and> i < length a \<longrightarrow> x \<le> a ! i)"
proof (induction a x lo hi rule: bisect_loop.induct)
  case (1 a x lo hi)
  show ?case
  proof (cases "lo < hi")
    case False
    then have "bisect_loop a x lo hi = lo" by (subst bisect_loop.simps) simp
    with "1.prems" False show ?thesis by simp
  next
    case True
    define mid where "mid = (lo + hi) div 2"
    have mid: "lo \<le> mid" "mid < hi" using True by (simp_all add: mid_def)
    show ?thesis
    proof (cases "a ! mid < x")
      case lt: True
      have below: "\<forall>i<mid + 1. a ! i < x"
      proof (intro allI impI)
        fix i assume "i < mid + 1"
        then have "i \<le> mid" by simp
        then have "a ! i \<le> a ! mid"
          using \<open>sorted a\<close> mid "1.prems"(3) by (simp add: sorted_iff_nth_mono)
        with lt show "a ! i < x" by simp
      qed
      have "lo \<le> mid + 1 \<and> mid + 1 \<le> bisect_loop a x (mid + 1) hi \<and>
            bisect_loop a x (mid + 1) hi \<le> hi \<and>
            (\<forall>i<bisect_loop a x (mid + 1) hi. a ! i < x) \<and>
            (\<forall>i. bisect_loop a x (mid + 1) hi \<le> i \<and> i < length a \<longrightarrow> x \<le> a ! i)"
        using "1.IH"(1) [OF True mid_def lt "1.prems"(1) _ "1.prems"(3) below "1.prems"(5)] mid
        by simp
      moreover have "bisect_loop a x lo hi = bisect_loop a x (mid + 1) hi"
        using True lt by (subst bisect_loop.simps) (simp add: mid_def Let_def)
      ultimately show ?thesis by simp
    next
      case ge: False
      have above: "\<forall>i. mid \<le> i \<and> i < length a \<longrightarrow> x \<le> a ! i"
      proof (intro allI impI)
        fix i assume "mid \<le> i \<and> i < length a"
        then have "a ! mid \<le> a ! i"
          using \<open>sorted a\<close> by (simp add: sorted_iff_nth_mono)
        with ge show "x \<le> a ! i" by simp
      qed
      have "lo \<le> bisect_loop a x lo mid \<and> bisect_loop a x lo mid \<le> mid \<and>
            (\<forall>i<bisect_loop a x lo mid. a ! i < x) \<and>
            (\<forall>i. bisect_loop a x lo mid \<le> i \<and> i < length a \<longrightarrow> x \<le> a ! i)"
        using "1.IH"(2) [OF True mid_def ge "1.prems"(1) mid(1) _ "1.prems"(4) above] mid
          "1.prems"(3) by simp
      moreover have "bisect_loop a x lo hi = bisect_loop a x lo mid"
        using True ge by (subst bisect_loop.simps) (simp add: mid_def Let_def)
      ultimately show ?thesis using mid by simp
    qed
  qed
qed

lemma bisect_left_sorted:
  assumes "sorted a"
  shows "bisect_left a x \<le> length a"
    and "\<forall>y\<in>set (take (bisect_left a x) a). y < x"
    and "\<forall>y\<in>set (drop (bisect_left a x) a). x \<le> y"
proof -
  have *: "bisect_left a x \<le> length a \<and> (\<forall>i<bisect_left a x. a ! i < x) \<and>
      (\<forall>i. bisect_left a x \<le> i \<and> i < length a \<longrightarrow> x \<le> a ! i)"
    using bisect_loop_sorted [OF assms, of 0 "length a" x] by (simp add: bisect_left_def)
  then show "bisect_left a x \<le> length a" by simp
  show "\<forall>y\<in>set (take (bisect_left a x) a). y < x"
  proof
    fix y assume "y \<in> set (take (bisect_left a x) a)"
    then obtain i where "i < bisect_left a x" "i < length a" "y = a ! i"
      by (auto simp: in_set_conv_nth)
    with * show "y < x" by simp
  qed
  show "\<forall>y\<in>set (drop (bisect_left a x) a). x \<le> y"
  proof
    fix y assume "y \<in> set (drop (bisect_left a x) a)"
    then obtain i where "i < length a - bisect_left a x" "y = a ! (bisect_left a x + i)"
      by (auto simp: in_set_conv_nth)
    with * show "x \<le> y" by simp
  qed
qed


section \<open>The in-order key sequence and the shape of a B-tree\<close>

text \<open>
  \<open>inorder\<close> is the key sequence of the in-order walk, as a total function; \<open>traverse\<close>
  returns it on every node whose internal nodes have enough children.
\<close>

fun inorder :: "node \<Rightarrow> int list"
  and inorder_from :: "node list \<Rightarrow> int list \<Rightarrow> int list" where
  "inorder (Node ks t cs leaf) = (if leaf then ks else inorder_from cs ks)"
| "inorder_from [] ks = []"
| "inorder_from (c # cs) [] = inorder c"
| "inorder_from (c # cs) (k # ks) = inorder c @ k # inorder_from cs ks"

text \<open>The walk over the children and keys to the left of a child, and to its right.\<close>

fun lefts :: "node list \<Rightarrow> int list \<Rightarrow> int list" where
  "lefts (c # cs) (k # ks) = inorder c @ k # lefts cs ks"
| "lefts _ _ = []"

fun rights :: "int list \<Rightarrow> node list \<Rightarrow> int list" where
  "rights (k # ks) (c # cs) = k # inorder c @ rights ks cs"
| "rights _ _ = []"

lemma inorder_eq: "inorder n = (if is_leaf n then keys n else inorder_from (children n) (keys n))"
  by (cases n) simp

lemma inorder_Node_leaf [simp]: "inorder (Node ks t cs True) = ks"
  by simp

lemma inorder_from_Cons: "length cs = length ks \<Longrightarrow> inorder_from (c # cs) ks = inorder c @ rights ks cs"
  by (induction cs ks arbitrary: c rule: list_induct2) auto

lemma inorder_from_append:
  "length cl = length kl \<Longrightarrow> inorder_from (cl @ cs) (kl @ ks) = lefts cl kl @ inorder_from cs ks"
  by (induction cl kl rule: list_induct2) auto

lemma inorder_from_split:
  "length cl = length kl \<Longrightarrow> length cr = length kr \<Longrightarrow>
   inorder_from (cl @ c # cr) (kl @ kr) = lefts cl kl @ inorder c @ rights kr cr"
  by (simp add: inorder_from_append inorder_from_Cons)

lemma inorder_from_mid:
  "length cl = Suc (length kl) \<Longrightarrow>
   inorder_from (cl @ cr) (kl @ k # kr) = inorder_from cl kl @ k # inorder_from cr kr"
proof (induction kl arbitrary: cl)
  case Nil
  then obtain c where "cl = [c]" by (cases cl) auto
  then show ?case by simp
next
  case (Cons a kl)
  then obtain c cl' where "cl = c # cl'" "length cl' = Suc (length kl)" by (cases cl) auto
  then show ?case using Cons.IH [of cl'] by simp
qed

lemma lefts_append:
  "length cl = length kl \<Longrightarrow> lefts (cl @ cs) (kl @ ks) = lefts cl kl @ lefts cs ks"
  by (induction cl kl rule: list_induct2) auto

lemma lefts_snoc:
  "length cl = length kl \<Longrightarrow> lefts (cl @ [c]) (kl @ [k]) = lefts cl kl @ inorder c @ [k]"
  by (simp add: lefts_append)

lemma lefts_last:
  "length cl = length kl \<Longrightarrow> kl \<noteq> [] \<Longrightarrow> lefts cl kl \<noteq> [] \<and> last (lefts cl kl) = last kl"
  by (induction cl kl rule: list_induct2) auto

lemma rights_hd:
  "length kr = length cr \<Longrightarrow> kr \<noteq> [] \<Longrightarrow> rights kr cr \<noteq> [] \<and> hd (rights kr cr) = hd kr"
  by (cases kr; cases cr) auto

text \<open>
  \<open>bt t d n\<close>: \<open>n\<close> is a B-tree node of minimum degree \<open>t\<close> that is not the root, with all its
  leaves exactly \<open>d\<close> levels below it. \<open>node_ok t d lo n\<close> is the same with the lower bound
  \<open>lo\<close> on the number of keys of \<open>n\<close> itself.
\<close>

fun bt :: "nat \<Rightarrow> nat \<Rightarrow> node \<Rightarrow> bool" where
  "bt t 0 n = (is_leaf n \<and> children n = [] \<and> min_degree n = t \<and>
       t - 1 \<le> length (keys n) \<and> length (keys n) \<le> 2 * t - 1)"
| "bt t (Suc d) n = (\<not> is_leaf n \<and> min_degree n = t \<and>
       t - 1 \<le> length (keys n) \<and> length (keys n) \<le> 2 * t - 1 \<and>
       length (children n) = length (keys n) + 1 \<and> (\<forall>c\<in>set (children n). bt t d c))"

definition node_ok :: "nat \<Rightarrow> nat \<Rightarrow> nat \<Rightarrow> node \<Rightarrow> bool" where
  "node_ok t d lo n =
     (min_degree n = t \<and> lo \<le> length (keys n) \<and> length (keys n) \<le> 2 * t - 1 \<and>
      (case d of
         0 \<Rightarrow> is_leaf n \<and> children n = []
       | Suc d' \<Rightarrow> \<not> is_leaf n \<and> length (children n) = length (keys n) + 1 \<and>
                  (\<forall>c\<in>set (children n). bt t d' c)))"

lemma bt_node_ok: "bt t d n = node_ok t d (t - 1) n"
  by (cases d) (auto simp: node_ok_def)

lemma node_ok_0:
  "node_ok t 0 lo n \<longleftrightarrow> min_degree n = t \<and> lo \<le> length (keys n) \<and> length (keys n) \<le> 2 * t - 1 \<and>
     is_leaf n \<and> children n = []"
  by (auto simp: node_ok_def)

lemma node_ok_Suc:
  "node_ok t (Suc d) lo n \<longleftrightarrow> min_degree n = t \<and> lo \<le> length (keys n) \<and>
     length (keys n) \<le> 2 * t - 1 \<and> \<not> is_leaf n \<and> length (children n) = length (keys n) + 1 \<and>
     (\<forall>c\<in>set (children n). bt t d c)"
  by (auto simp: node_ok_def)

lemma node_ok_mono: "node_ok t d lo n \<Longrightarrow> lo' \<le> lo \<Longrightarrow> node_ok t d lo' n"
  by (auto simp: node_ok_def)

section \<open>Splitting a full child\<close>

lemma split_child_app:
  assumes "length cl = length kl" "t - 1 < length (keys c)"
  shows "split_child (Node (kl @ kr) t (cl @ c # cr) l) (length kl) =
         Some (Node (kl @ keys c ! (t - 1) # kr) t
                 (cl @ existing_child_cut t c # new_child t c # cr) l)"
  using assms by (simp add: split_child_def py_get_def py_insert_def nth_append list_update_append)

lemma split_halves_bt:
  assumes "bt t d c" "length (keys c) = 2 * t - 1" "1 \<le> t"
  shows "bt t d (existing_child_cut t c)" "bt t d (new_child t c)"
    "length (keys (existing_child_cut t c)) = t - 1" "length (keys (new_child t c)) = t - 1"
proof -
  show "length (keys (existing_child_cut t c)) = t - 1" "length (keys (new_child t c)) = t - 1"
    using assms(2,3) by (auto simp: existing_child_cut_def new_child_def)
  show "bt t d (existing_child_cut t c)"
    using assms by (cases d) (auto simp: existing_child_cut_def dest: in_set_takeD)
  show "bt t d (new_child t c)"
    using assms by (cases d) (auto simp: new_child_def dest: in_set_dropD)
qed

lemma split_halves_inorder:
  assumes "bt t d c" "length (keys c) = 2 * t - 1" "1 \<le> t"
  shows "inorder c = inorder (existing_child_cut t c) @ keys c ! (t - 1) # inorder (new_child t c)"
proof (cases d)
  case 0
  with assms have "is_leaf c" by simp
  moreover have "keys c = take (t - 1) (keys c) @ keys c ! (t - 1) # drop t (keys c)"
    using assms(2,3) id_take_nth_drop [of "t - 1" "keys c"] by (simp add: Suc_diff_Suc)
  ultimately show ?thesis
    by (simp add: inorder_eq existing_child_cut_def new_child_def)
next
  case (Suc d')
  with assms have nl: "\<not> is_leaf c" and len: "length (children c) = 2 * t" by auto
  have ks: "keys c = take (t - 1) (keys c) @ keys c ! (t - 1) # drop t (keys c)"
    using assms(2,3) id_take_nth_drop [of "t - 1" "keys c"] by (simp add: Suc_diff_Suc)
  have "inorder_from (take t (children c) @ drop t (children c))
           (take (t - 1) (keys c) @ keys c ! (t - 1) # drop t (keys c)) =
        inorder_from (take t (children c)) (take (t - 1) (keys c)) @
          keys c ! (t - 1) # inorder_from (drop t (children c)) (drop t (keys c))"
    by (rule inorder_from_mid) (use len assms(2,3) in simp)
  with ks have "inorder_from (children c) (keys c) =
        inorder_from (take t (children c)) (take (t - 1) (keys c)) @
          keys c ! (t - 1) # inorder_from (drop t (children c)) (drop t (keys c))"
    by simp
  with nl show ?thesis
    by (simp add: inorder_eq existing_child_cut_def new_child_def)
qed

section \<open>Sortedness of the walk\<close>

lemma sorted_le_last: "sorted xs \<Longrightarrow> x \<in> set xs \<Longrightarrow> x \<le> last xs"
  by (induction xs) auto

lemma sorted_hd_le: "sorted xs \<Longrightarrow> x \<in> set xs \<Longrightarrow> hd xs \<le> x"
  by (cases xs) auto

lemma lefts_le_last:
  assumes "length cl = length kl" "sorted (lefts cl kl)" "x \<in> set (lefts cl kl)"
  shows "kl \<noteq> [] \<and> x \<le> last kl"
proof -
  from assms(3) have "kl \<noteq> []" by (cases cl; cases kl) auto
  with lefts_last [OF assms(1)] sorted_le_last [OF assms(2,3)] show ?thesis by simp
qed

lemma rights_ge_hd:
  assumes "length kr = length cr" "sorted (rights kr cr)" "x \<in> set (rights kr cr)"
  shows "kr \<noteq> [] \<and> hd kr \<le> x"
proof -
  from assms(3) have "kr \<noteq> []" by (cases cr; cases kr) auto
  with rights_hd [OF assms(1)] sorted_hd_le [OF assms(2,3)] show ?thesis by simp
qed

lemma lefts_less:
  assumes "length cl = length kl" "sorted (lefts cl kl)" "\<forall>y\<in>set kl. y < key"
  shows "\<forall>x\<in>set (lefts cl kl). x < key"
proof
  fix x assume "x \<in> set (lefts cl kl)"
  from lefts_le_last [OF assms(1,2) this] assms(3) show "x < key"
    using last_in_set [of kl] by fastforce
qed

lemma rights_ge:
  assumes "length kr = length cr" "sorted (rights kr cr)" "\<forall>y\<in>set kr. key \<le> y"
  shows "\<forall>x\<in>set (rights kr cr). key \<le> x"
proof
  fix x assume "x \<in> set (rights kr cr)"
  from rights_ge_hd [OF assms(1,2) this] assms(3) show "key \<le> x"
    using hd_in_set [of kr] by fastforce
qed

lemma rights_greater:
  assumes "length kr = length cr" "sorted (rights kr cr)" "\<forall>y\<in>set kr. key < y"
  shows "\<forall>x\<in>set (rights kr cr). key < x"
proof
  fix x assume "x \<in> set (rights kr cr)"
  from rights_ge_hd [OF assms(1,2) this] assms(3) show "key < x"
    using hd_in_set [of kr] by fastforce
qed

lemma set_inorder_from_keys:
  "length cs = Suc (length ks) \<Longrightarrow> set ks \<subseteq> set (inorder_from cs ks)"
proof (induction ks arbitrary: cs)
  case Nil
  then show ?case by simp
next
  case (Cons k ks)
  then obtain c cs' where "cs = c # cs'" "length cs' = Suc (length ks)" by (cases cs) auto
  then show ?case using Cons.IH [of cs'] by auto
qed

lemma sorted_inorder_from_keys:
  "length cs = Suc (length ks) \<Longrightarrow> sorted (inorder_from cs ks) \<Longrightarrow> sorted ks"
proof (induction ks arbitrary: cs)
  case Nil
  then show ?case by simp
next
  case (Cons k ks)
  then obtain c cs' where cs: "cs = c # cs'" "length cs' = Suc (length ks)" by (cases cs) auto
  with Cons.prems have s: "sorted (k # inorder_from cs' ks)" by (simp add: sorted_append)
  then have "sorted ks" using Cons.IH [OF cs(2)] by simp
  moreover have "\<forall>y\<in>set ks. k \<le> y" using s set_inorder_from_keys [OF cs(2)] by auto
  ultimately show ?case by simp
qed

lemma sorted_keys:
  assumes "node_ok t d lo n" "sorted (inorder n)"
  shows "sorted (keys n)"
proof (cases d)
  case 0
  with assms show ?thesis by (simp add: node_ok_0 inorder_eq)
next
  case (Suc d')
  with assms show ?thesis
    using sorted_inorder_from_keys [of "children n" "keys n"] by (simp add: node_ok_Suc inorder_eq)
qed

lemma sorted_mid_insert:
  assumes "sorted (A @ C @ B)" "sorted C'" "set C' \<subseteq> insert k (set C)"
    "\<forall>x\<in>set A. x \<le> k" "\<forall>x\<in>set B. k \<le> x"
  shows "sorted (A @ C' @ B)"
  using assms by (force simp: sorted_append)

lemma sorted_mid_subset:
  assumes "sorted (A @ C @ B)" "sorted C'" "set C' \<subseteq> set C"
  shows "sorted (A @ C' @ B)"
  using assms by (force simp: sorted_append)

lemma set_of_add_mset: "mset xs = add_mset k (mset ys) \<Longrightarrow> set xs = insert k (set ys)"
  by (drule arg_cong [where f = set_mset]) simp

lemma set_of_diff_mset: "mset xs = mset ys - {#k#} \<Longrightarrow> set xs \<subseteq> set ys"
  by (drule arg_cong [where f = set_mset]) (auto dest: in_diffD)

section \<open>Insertion\<close>

lemma insert_leaf:
  assumes "node_ok t 0 lo n" "length (keys n) < 2 * t - 1" "sorted (inorder n)"
  shows "\<exists>n'. insert_non_full n key = Some n' \<and> node_ok t 0 lo n' \<and> sorted (inorder n') \<and>
           mset (inorder n') = add_mset key (mset (inorder n))"
proof -
  let ?i = "bisect_left (keys n) key"
  let ?n' = "set_keys n (py_insert ?i key (keys n))"
  from assms have leaf: "is_leaf n" and sk: "sorted (keys n)"
    by (simp_all add: node_ok_0 inorder_eq)
  have res: "insert_non_full n key = Some ?n'"
    using leaf by (subst insert_non_full.simps) (simp add: get_key_index_def)
  have ino: "inorder ?n' = take ?i (keys n) @ key # drop ?i (keys n)"
    using leaf by (simp add: set_keys_def py_insert_def)
  have ok: "node_ok t 0 lo ?n'"
    using assms(1,2) bisect_left_sorted(1) [OF sk, of key]
    by (simp add: node_ok_0 set_keys_def py_insert_def)
  have "sorted (take ?i (keys n) @ drop ?i (keys n))" using sk by simp
  then have "sorted (take ?i (keys n) @ key # drop ?i (keys n))"
    using bisect_left_sorted(2,3) [OF sk, of key] by (force simp: sorted_append)
  moreover have "mset (take ?i (keys n) @ key # drop ?i (keys n)) = add_mset key (mset (keys n))"
    using mset_append [of "take ?i (keys n)" "drop ?i (keys n)"] by simp
  ultimately show ?thesis using res ok ino leaf by (simp add: inorder_eq [of n])
qed

lemma insert_non_full_correct:
  assumes t: "2 \<le> t"
  shows "node_ok t d lo n \<Longrightarrow> length (keys n) < 2 * t - 1 \<Longrightarrow> sorted (inorder n) \<Longrightarrow>
     \<exists>n'. insert_non_full n key = Some n' \<and> node_ok t d lo n' \<and> sorted (inorder n') \<and>
           mset (inorder n') = add_mset key (mset (inorder n))"
proof (induction d arbitrary: n lo)
  case 0
  then show ?case by (rule insert_leaf)
next
  case (Suc d)
  from Suc.prems(1) have shape: "min_degree n = t" "lo \<le> length (keys n)" "\<not> is_leaf n"
    "length (children n) = length (keys n) + 1" "\<forall>c\<in>set (children n). bt t d c"
    by (simp_all add: node_ok_Suc)
  have sk: "sorted (keys n)" using Suc.prems(1,3) by (rule sorted_keys)
  define i where "i = get_key_index n key"
  have i_le: "i \<le> length (keys n)"
    and lt: "\<forall>y\<in>set (take i (keys n)). y < key" and ge: "\<forall>y\<in>set (drop i (keys n)). key \<le> y"
    using bisect_left_sorted [OF sk, of key] by (simp_all add: i_def get_key_index_def)
  define kl where "kl = take i (keys n)"
  define kr where "kr = drop i (keys n)"
  define cl where "cl = take i (children n)"
  define cr where "cr = drop (Suc i) (children n)"
  define c where "c = children n ! i"
  have ks: "keys n = kl @ kr" by (simp add: kl_def kr_def)
  have cs: "children n = cl @ c # cr"
    using id_take_nth_drop [of i "children n"] shape(4) i_le by (simp add: cl_def cr_def c_def)
  have i: "i = length kl" using i_le by (simp add: kl_def)
  have len: "length cl = length kl" "length cr = length kr"
    using shape(4) i_le by (simp_all add: cl_def cr_def kl_def kr_def)
  have n: "n = Node (kl @ kr) t (cl @ c # cr) False"
    using ks cs shape(1,3) by (cases n) simp
  have c_bt: "bt t d c" and cl_bt: "\<forall>x\<in>set cl. bt t d x" and cr_bt: "\<forall>x\<in>set cr. bt t d x"
    using shape(5) by (simp_all add: cs)
  have ino: "inorder n = lefts cl kl @ inorder c @ rights kr cr"
    using shape(3) len by (simp add: inorder_eq ks cs inorder_from_split)
  have sorted_parts: "sorted (lefts cl kl)" "sorted (inorder c)" "sorted (rights kr cr)"
    using Suc.prems(3) by (simp_all add: ino sorted_append)
  have L: "\<forall>x\<in>set (lefts cl kl). x \<le> key"
    using lefts_less [of cl kl key] len sorted_parts(1) lt by (fastforce simp: kl_def)
  have R: "\<forall>x\<in>set (rights kr cr). key \<le> x"
    using rights_ge [of kr cr key] len sorted_parts(3) ge by (simp add: kr_def)
  have get_c: "py_get (children n) i = Some c"
    using len by (simp add: cs py_get_def i nth_append)
  show ?case
  proof (cases "is_full c")
    case False
    then have nf: "length (keys c) < 2 * t - 1"
      using c_bt t by (cases d) (auto simp: is_full_def)
    from Suc.IH [of "t - 1" c] c_bt nf sorted_parts(2)
    obtain c' where c': "insert_non_full c key = Some c'" "bt t d c'" "sorted (inorder c')"
      "mset (inorder c') = add_mset key (mset (inorder c))"
      by (auto simp: bt_node_ok)
    let ?n' = "Node (kl @ kr) t (cl @ c' # cr) False"
    have res: "insert_non_full n key = Some ?n'"
      using shape(1,3) get_c False c'(1) len
      by (subst insert_non_full.simps)
         (simp add: i_def [symmetric] set_child_def set_children_def ks cs i list_update_append)
    have ok: "node_ok t (Suc d) lo ?n'"
      using Suc.prems(1,2) shape(2) c'(2) cl_bt cr_bt len
      by (simp add: node_ok_Suc ks cs ball_Un)
    have ino': "inorder ?n' = lefts cl kl @ inorder c' @ rights kr cr"
      using len by (simp add: inorder_from_split)
    have "set (inorder c') \<subseteq> insert key (set (inorder c))"
      using c'(4) using set_of_add_mset [OF c'(4)] by simp
    then have "sorted (inorder ?n')"
      unfolding ino'
      using sorted_mid_insert [of "lefts cl kl" "inorder c" "rights kr cr" "inorder c'" key]
        Suc.prems(3) c'(3) L R by (simp add: ino)
    moreover have "mset (inorder ?n') = add_mset key (mset (inorder n))"
      unfolding ino' ino using c'(4) by simp
    ultimately show ?thesis using res ok by blast
  next
    case True
    then have full: "length (keys c) = 2 * t - 1"
      using c_bt t by (cases d) (auto simp: is_full_def)
    let ?m = "keys c ! (t - 1)"
    let ?c1 = "existing_child_cut t c" and ?c2 = "new_child t c"
    have t1: "1 \<le> t" using t by simp
    note halves = split_halves_bt [OF c_bt full t1]
    have ino_c: "inorder c = inorder ?c1 @ ?m # inorder ?c2"
      using c_bt full t1 by (rule split_halves_inorder)
    let ?n1 = "Node (kl @ ?m # kr) t (cl @ ?c1 # ?c2 # cr) False"
    have split: "split_child n i = Some ?n1"
      using split_child_app [of cl kl t c kr cr False] len full t
      by (subst n) (simp add: i)
    have get_m: "py_get (keys ?n1) i = Some ?m"
      by (simp add: py_get_def i)
    have small: "length (keys ?c1) < 2 * t - 1" "length (keys ?c2) < 2 * t - 1"
      using halves(3,4) t by simp_all
    have s_c: "sorted (inorder ?c1)" "sorted (inorder ?c2)"
      "\<forall>x\<in>set (inorder ?c1). x \<le> ?m" "\<forall>x\<in>set (inorder ?c2). ?m \<le> x"
      using sorted_parts(2) by (auto simp: ino_c sorted_append)
    show ?thesis
    proof (cases "key > ?m")
      case True
      from Suc.IH [of "t - 1" ?c2] halves(2) small(2) s_c(2)
      obtain c' where c': "insert_non_full ?c2 key = Some c'" "bt t d c'" "sorted (inorder c')"
        "mset (inorder c') = add_mset key (mset (inorder ?c2))"
        by (auto simp: bt_node_ok)
      let ?n' = "Node (kl @ ?m # kr) t (cl @ ?c1 # c' # cr) False"
      have get_c2: "py_get (children ?n1) (i + 1) = Some ?c2"
        using len by (simp add: py_get_def nth_append i)
      have res: "insert_non_full n key = Some ?n'"
        using shape(3) get_c \<open>is_full c\<close> split get_m True get_c2 c'(1) len
        by (subst insert_non_full.simps)
           (simp add: i_def [symmetric] set_child_def set_children_def list_update_append i)
      have ok: "node_ok t (Suc d) lo ?n'"
        using Suc.prems(2) shape(2) c'(2) halves(1) cl_bt cr_bt len
        by (simp add: node_ok_Suc ks cs ball_Un)
      have ino': "inorder ?n' = (lefts cl kl @ inorder ?c1 @ [?m]) @ inorder c' @ rights kr cr"
        using len inorder_from_split [of "cl @ [?c1]" "kl @ [?m]" cr kr c']
        by (simp add: lefts_snoc)
      have sub: "set (inorder c') \<subseteq> insert key (set (inorder ?c2))"
        using c'(4) using set_of_add_mset [OF c'(4)] by simp
      have "sorted ((lefts cl kl @ inorder ?c1 @ [?m]) @ inorder ?c2 @ rights kr cr)"
        using Suc.prems(3) by (simp add: ino ino_c)
      then have "sorted (inorder ?n')"
        unfolding ino'
        using sorted_mid_insert [of "lefts cl kl @ inorder ?c1 @ [?m]" "inorder ?c2"
            "rights kr cr" "inorder c'" key] c'(3) sub L R s_c(3) True
        by fastforce
      moreover have "mset (inorder ?n') = add_mset key (mset (inorder n))"
        unfolding ino' ino ino_c using c'(4) by simp
      ultimately show ?thesis using res ok by blast
    next
      case False
      from Suc.IH [of "t - 1" ?c1] halves(1) small(1) s_c(1)
      obtain c' where c': "insert_non_full ?c1 key = Some c'" "bt t d c'" "sorted (inorder c')"
        "mset (inorder c') = add_mset key (mset (inorder ?c1))"
        by (auto simp: bt_node_ok)
      let ?n' = "Node (kl @ ?m # kr) t (cl @ c' # ?c2 # cr) False"
      have get_c1: "py_get (children ?n1) i = Some ?c1"
        using len by (simp add: py_get_def nth_append i)
      have res: "insert_non_full n key = Some ?n'"
        using shape(3) get_c \<open>is_full c\<close> split get_m False get_c1 c'(1) len
        by (subst insert_non_full.simps)
           (simp add: i_def [symmetric] set_child_def set_children_def list_update_append i)
      have ok: "node_ok t (Suc d) lo ?n'"
        using Suc.prems(2) shape(2) c'(2) halves(2) cl_bt cr_bt len
        by (simp add: node_ok_Suc ks cs ball_Un)
      have ino': "inorder ?n' = lefts cl kl @ inorder c' @ (?m # inorder ?c2 @ rights kr cr)"
        using len inorder_from_split [of cl kl "?c2 # cr" "?m # kr" c']
        by simp
      have sub: "set (inorder c') \<subseteq> insert key (set (inorder ?c1))"
        using c'(4) using set_of_add_mset [OF c'(4)] by simp
      have "sorted (lefts cl kl @ inorder ?c1 @ (?m # inorder ?c2 @ rights kr cr))"
        using Suc.prems(3) by (simp add: ino ino_c)
      then have "sorted (inorder ?n')"
        unfolding ino'
        using sorted_mid_insert [of "lefts cl kl" "inorder ?c1"
            "?m # inorder ?c2 @ rights kr cr" "inorder c'" key] c'(3) sub L R s_c(4) False
        by fastforce
      moreover have "mset (inorder ?n') = add_mset key (mset (inorder n))"
        unfolding ino' ino ino_c using c'(4) by simp
      ultimately show ?thesis using res ok by blast
    qed
  qed
qed

section \<open>The invariant of the tree and \<^verbatim>\<open>BTree.insert\<close>\<close>

text \<open>
  The root may hold fewer than \<open>t - 1\<close> keys, but an internal root holds at least one.
\<close>

definition root_ok :: "nat \<Rightarrow> nat \<Rightarrow> node \<Rightarrow> bool" where
  "root_ok t d n = node_ok t d (if d = 0 then 0 else 1) n"

definition tree_ok :: "btree \<Rightarrow> bool" where
  "tree_ok T = (2 \<le> tree_min_degree T \<and> (\<exists>d. root_ok (tree_min_degree T) d (root T)) \<and>
      sorted (inorder (root T)))"

lemma split_root:
  assumes "node_ok t d lo r" "length (keys r) = 2 * t - 1" "2 \<le> t"
  shows "split_child (Node [] t [r] False) 0 =
           Some (Node [keys r ! (t - 1)] t [existing_child_cut t r, new_child t r] False)"
    and "node_ok t (Suc d) 1 (Node [keys r ! (t - 1)] t [existing_child_cut t r, new_child t r] False)"
    and "inorder (Node [keys r ! (t - 1)] t [existing_child_cut t r, new_child t r] False) = inorder r"
proof -
  have bt: "bt t d r" using assms by (auto simp: bt_node_ok node_ok_def)
  have t1: "1 \<le> t" using assms(3) by simp
  show "split_child (Node [] t [r] False) 0 =
           Some (Node [keys r ! (t - 1)] t [existing_child_cut t r, new_child t r] False)"
    using split_child_app [of "[]" "[]" t r "[]" "[]" False] assms(2,3) by simp
  show "node_ok t (Suc d) 1 (Node [keys r ! (t - 1)] t [existing_child_cut t r, new_child t r] False)"
    using split_halves_bt(1,2) [OF bt assms(2) t1] assms(3) by (simp add: node_ok_Suc)
  show "inorder (Node [keys r ! (t - 1)] t [existing_child_cut t r, new_child t r] False) = inorder r"
    using split_halves_inorder [OF bt assms(2) t1] by simp
qed

lemma BTree_insert_correct:
  assumes "tree_ok T"
  shows "\<exists>T'. BTree_insert T key = Some T' \<and> tree_ok T' \<and>
           tree_min_degree T' = tree_min_degree T \<and>
           mset (inorder (root T')) = add_mset key (mset (inorder (root T)))"
proof -
  let ?t = "tree_min_degree T"
  from assms obtain d where t: "2 \<le> ?t" and r: "root_ok ?t d (root T)"
    and s: "sorted (inorder (root T))" by (auto simp: tree_ok_def)
  have md: "min_degree (root T) = ?t" and le: "length (keys (root T)) \<le> 2 * ?t - 1"
    using r by (simp_all add: root_ok_def node_ok_def)
  have full_iff: "is_full (root T) \<longleftrightarrow> length (keys (root T)) = 2 * ?t - 1"
    using md t by (auto simp: is_full_def)
  show ?thesis
  proof (cases "is_full (root T)")
    case True
    let ?r = "Node [keys (root T) ! (?t - 1)] ?t
        [existing_child_cut ?t (root T), new_child ?t (root T)] False"
    have full: "length (keys (root T)) = 2 * ?t - 1" using True full_iff by simp
    note sr = split_root [OF r [unfolded root_ok_def] full t]
    have lt: "length (keys ?r) < 2 * ?t - 1" using t by simp
    have s': "sorted (inorder ?r)" unfolding sr(3) by (rule s)
    from insert_non_full_correct [OF t sr(2) lt s', of key]
    obtain r' where r': "insert_non_full ?r key = Some r'" "node_ok ?t (Suc d) 1 r'"
      "sorted (inorder r')" "mset (inorder r') = add_mset key (mset (inorder (root T)))"
      unfolding sr(3) by blast
    have "BTree_insert T key = Some (T\<lparr>root := r'\<rparr>)"
      using True sr(1) r'(1) by (simp add: BTree_insert_def)
    moreover have "tree_ok (T\<lparr>root := r'\<rparr>)"
      using t r'(2,3) by (auto simp: tree_ok_def root_ok_def intro!: exI [of _ "Suc d"])
    ultimately show ?thesis using r'(4) by simp
  next
    case False
    then have "length (keys (root T)) < 2 * ?t - 1" using full_iff le by simp
    from insert_non_full_correct [OF t r [unfolded root_ok_def] this s, of key]
    obtain r' where r': "insert_non_full (root T) key = Some r'"
      "node_ok ?t d (if d = 0 then 0 else 1) r'"
      "sorted (inorder r')" "mset (inorder r') = add_mset key (mset (inorder (root T)))"
      by blast
    have "BTree_insert T key = Some (T\<lparr>root := r'\<rparr>)"
      using False r'(1) by (simp add: BTree_insert_def)
    moreover have "tree_ok (T\<lparr>root := r'\<rparr>)"
      using t r'(2,3) by (auto simp: tree_ok_def root_ok_def intro!: exI [of _ d])
    ultimately show ?thesis using r'(4) by simp
  qed
qed

lemma main_BTree_insert_eq: "main_BTree_insert T key = BTree_insert T key"
  by (simp add: main_BTree_insert_def BTree_insert_def)

lemma BTree_init_ok: "2 \<le> md \<Longrightarrow> BTree_init md = Inr T \<Longrightarrow> tree_ok T \<and> inorder (root T) = []"
  by (auto simp: BTree_init_def tree_ok_def root_ok_def node_ok_def intro!: exI [of _ 0])

section \<open>Traversal and search\<close>

lemma traverse_from_inorder:
  assumes "\<forall>c\<in>set cs. traverse c = Some (inorder c)" "length cs = Suc (length ks)"
  shows "traverse_from cs ks = Some (inorder_from cs ks)"
  using assms
proof (induction ks arbitrary: cs)
  case Nil
  then obtain c where "cs = [c]" by (cases cs) auto
  with Nil show ?case by simp
next
  case (Cons k ks)
  then obtain c cs' where "cs = c # cs'" "length cs' = Suc (length ks)" by (cases cs) auto
  with Cons.prems Cons.IH [of cs'] show ?case by simp
qed

lemma traverse_inorder: "node_ok t d lo n \<Longrightarrow> traverse n = Some (inorder n)"
proof (induction d arbitrary: n lo)
  case 0
  then show ?case by (cases n) (simp add: node_ok_0)
next
  case (Suc d)
  then have "\<forall>c\<in>set (children n). traverse c = Some (inorder c)"
    by (auto simp: node_ok_Suc bt_node_ok)
  with Suc.prems show ?case
    using traverse_from_inorder [of "children n" "keys n"]
    by (cases n) (simp add: node_ok_Suc)
qed

section \<open>A node seen from the position of a key\<close>

definition lefts_at :: "node \<Rightarrow> nat \<Rightarrow> int list" where
  "lefts_at n i = lefts (take i (children n)) (take i (keys n))"

definition rights_at :: "node \<Rightarrow> nat \<Rightarrow> int list" where
  "rights_at n i = rights (drop i (keys n)) (drop (Suc i) (children n))"

lemma inorder_at:
  assumes "\<not> is_leaf n" "length (children n) = length (keys n) + 1" "i \<le> length (keys n)"
  shows "inorder n = lefts_at n i @ inorder (children n ! i) @ rights_at n i"
proof -
  have "inorder_from (take i (children n) @ children n ! i # drop (Suc i) (children n))
          (take i (keys n) @ drop i (keys n)) =
        lefts (take i (children n)) (take i (keys n)) @ inorder (children n ! i) @
          rights (drop i (keys n)) (drop (Suc i) (children n))"
    by (rule inorder_from_split) (use assms in simp_all)
  moreover have "take i (children n) @ children n ! i # drop (Suc i) (children n) = children n"
    using id_take_nth_drop [of i "children n"] assms by simp
  ultimately show ?thesis using assms(1) by (simp add: inorder_eq lefts_at_def rights_at_def)
qed

lemma bisect_found_iff:
  assumes "sorted ks"
  shows "key \<in> set ks \<longleftrightarrow> bisect_left ks key < length ks \<and> ks ! bisect_left ks key = key"
proof
  let ?i = "bisect_left ks key"
  assume "key \<in> set ks"
  then have "key \<in> set (take ?i ks) \<union> set (drop ?i ks)"
    using set_append [of "take ?i ks" "drop ?i ks"] by simp
  with bisect_left_sorted(2) [OF assms, of key] have mem: "key \<in> set (drop ?i ks)" by auto
  then have lt: "?i < length ks" by (cases "?i < length ks") auto
  have "sorted (drop ?i ks)" using assms by (simp add: sorted_wrt_drop)
  from sorted_hd_le [OF this mem] have "ks ! ?i \<le> key" using lt by (simp add: hd_drop_conv_nth)
  moreover have "key \<le> ks ! ?i"
    using bisect_left_sorted(3) [OF assms, of key] lt
    by (metis hd_drop_conv_nth hd_in_set drop_eq_Nil not_le)
  ultimately show "?i < length ks \<and> ks ! ?i = key" using lt by simp
next
  assume "bisect_left ks key < length ks \<and> ks ! bisect_left ks key = key"
  then show "key \<in> set ks" using nth_mem by fastforce
qed

lemma key_position:
  fixes n :: node and key :: int
  defines "i \<equiv> get_key_index n key"
  assumes "node_ok t (Suc d) lo n" "sorted (inorder n)"
  shows "i \<le> length (keys n)"
    and "inorder n = lefts_at n i @ inorder (children n ! i) @ rights_at n i"
    and "\<forall>x\<in>set (lefts_at n i). x < key"
    and "\<forall>x\<in>set (rights_at n i). key \<le> x"
    and "\<not> (i < length (keys n) \<and> keys n ! i = key) \<Longrightarrow> \<forall>x\<in>set (rights_at n i). key < x"
proof -
  from assms(2) have shape: "\<not> is_leaf n" "length (children n) = length (keys n) + 1"
    by (simp_all add: node_ok_Suc)
  have sk: "sorted (keys n)" using assms(2,3) by (rule sorted_keys)
  note b = bisect_left_sorted [OF sk, of key, folded get_key_index_def, folded i_def]
  show i_le: "i \<le> length (keys n)" by (rule b(1))
  show ino: "inorder n = lefts_at n i @ inorder (children n ! i) @ rights_at n i"
    using shape i_le by (rule inorder_at)
  have s: "sorted (lefts_at n i)" "sorted (rights_at n i)"
    using assms(3) by (simp_all add: ino sorted_append)
  have len: "length (take i (children n)) = length (take i (keys n))"
    "length (drop i (keys n)) = length (drop (Suc i) (children n))"
    using shape i_le by simp_all
  show "\<forall>x\<in>set (lefts_at n i). x < key"
    unfolding lefts_at_def
    by (rule lefts_less [OF len(1) s(1) [unfolded lefts_at_def] b(2)])
  show "\<forall>x\<in>set (rights_at n i). key \<le> x"
    unfolding rights_at_def
    by (rule rights_ge [OF len(2) s(2) [unfolded rights_at_def] b(3)])
  assume nf: "\<not> (i < length (keys n) \<and> keys n ! i = key)"
  have "\<forall>y\<in>set (drop i (keys n)). key < y"
  proof
    fix y assume y: "y \<in> set (drop i (keys n))"
    then have lt: "i < length (keys n)" by (cases "i < length (keys n)") auto
    have "sorted (drop i (keys n))" using sk by (simp add: sorted_wrt_drop)
    from sorted_hd_le [OF this y] have "keys n ! i \<le> y" using lt by (simp add: hd_drop_conv_nth)
    moreover have "key \<le> keys n ! i"
      using b(3) lt by (metis hd_drop_conv_nth hd_in_set drop_eq_Nil not_le)
    ultimately show "key < y" using nf lt by simp
  qed
  then show "\<forall>x\<in>set (rights_at n i). key < x"
    unfolding rights_at_def
    by (rule rights_greater [OF len(2) s(2) [unfolded rights_at_def]])
qed

lemma keys_subset_inorder: "node_ok t d lo n \<Longrightarrow> set (keys n) \<subseteq> set (inorder n)"
  using set_inorder_from_keys [of "children n" "keys n"]
  by (cases d) (auto simp: node_ok_def inorder_eq)

lemma search_correct:
  assumes t: "2 \<le> t"
  shows "node_ok t d lo n \<Longrightarrow> d \<noteq> 0 \<longrightarrow> keys n \<noteq> [] \<Longrightarrow> sorted (inorder n) \<Longrightarrow>
     \<exists>r. search n key = Some r \<and> (r \<noteq> None \<longleftrightarrow> key \<in> set (inorder n))"
proof (induction d arbitrary: n lo)
  case 0
  then have leaf: "is_leaf n" and sk: "sorted (keys n)" by (simp_all add: node_ok_0 inorder_eq)
  show ?case
    using leaf bisect_found_iff [OF sk, of key]
    by (subst search.simps) (auto simp: get_key_index_def inorder_eq Let_def)
next
  case (Suc d)
  let ?i = "get_key_index n key"
  from Suc.prems(1) have shape: "\<not> is_leaf n" "length (children n) = length (keys n) + 1"
    "\<forall>c\<in>set (children n). bt t d c" by (simp_all add: node_ok_Suc)
  note kp = key_position [OF Suc.prems(1,3), of key]
  have ne: "keys n \<noteq> []" using Suc.prems(2) by simp
  show ?case
  proof (cases "?i < length (keys n) \<and> keys n ! ?i = key")
    case True
    then have "key \<in> set (keys n)" using nth_mem by fastforce
    then have "key \<in> set (inorder n)" using keys_subset_inorder [OF Suc.prems(1)] by auto
    moreover have "search n key = Some (Some n)"
      using True ne by (subst search.simps) (simp add: Let_def)
    ultimately show ?thesis by simp
  next
    case False
    let ?c = "children n ! ?i"
    have mem: "?c \<in> set (children n)" using kp(1) shape(2) by simp
    then have c: "node_ok t d (t - 1) ?c" using shape(3) by (simp add: bt_node_ok)
    then have cne: "keys ?c \<noteq> []" using t by (auto simp: node_ok_def)
    have sc: "sorted (inorder ?c)" using Suc.prems(3) by (subst (asm) kp(2)) (simp add: sorted_append)
    from Suc.IH [OF c _ sc] cne obtain r where
      r: "search ?c key = Some r" "r \<noteq> None \<longleftrightarrow> key \<in> set (inorder ?c)" by blast
    have "search n key = Some r"
      using False ne shape(1,2) kp(1) r(1) by (subst search.simps) (auto simp: py_get_def Let_def)
    moreover have "key \<in> set (inorder n) \<longleftrightarrow> key \<in> set (inorder ?c)"
      using kp(3) kp(5) [OF False] by (subst kp(2)) auto
    ultimately show ?thesis using r(2) by simp
  qed
qed

section \<open>Borrowing and merging\<close>

lemma merge_app:
  assumes "length cl = length kl"
  shows "merge (Node (kl @ k # kr) t (cl @ a # b # cr) l) (length kl) =
         Some (Node (kl @ kr) t (cl @ merged_child a k b # cr) l)"
  using assms by (simp add: merge_eq_Some nth_append)

lemma borrow_from_prev_app:
  assumes "length cl = length kl" "keys s \<noteq> []" "\<not> is_leaf c \<longrightarrow> children s \<noteq> []"
  shows "borrow_from_prev (Node (kl @ k # kr) t (cl @ s # c # cr) l) (Suc (length kl)) =
         Some (Node (kl @ last (keys s) # kr) t
                 (cl @ prev_sibling c s # prev_child c k s # cr) l)"
  using assms by (simp add: borrow_from_prev_eq_Some nth_append list_update_append)

lemma borrow_from_next_app:
  assumes "length cl = length kl" "keys s \<noteq> []" "\<not> is_leaf c \<longrightarrow> children s \<noteq> []"
  shows "borrow_from_next (Node (kl @ k # kr) t (cl @ c # s # cr) l) (length kl) =
         Some (Node (kl @ hd (keys s) # kr) t
                 (cl @ next_child c k s # next_sibling c s # cr) l)"
  using assms by (simp add: borrow_from_next_eq_Some nth_append list_update_append)

lemma merged_child_props:
  assumes "bt t d a" "bt t d b" "length (keys a) + length (keys b) + 1 \<le> 2 * t - 1"
  shows "bt t d (merged_child a k b)"
    and "inorder (merged_child a k b) = inorder a @ k # inorder b"
    and "length (keys (merged_child a k b)) = length (keys a) + length (keys b) + 1"
proof -
  show "length (keys (merged_child a k b)) = length (keys a) + length (keys b) + 1"
    by (simp add: merged_child_def)
  show "bt t d (merged_child a k b)"
    using assms by (cases d) (auto simp: merged_child_def)
  show "inorder (merged_child a k b) = inorder a @ k # inorder b"
  proof (cases d)
    case 0
    with assms show ?thesis by (simp add: merged_child_def inorder_eq)
  next
    case (Suc d')
    with assms have "\<not> is_leaf a" "\<not> is_leaf b" "length (children a) = Suc (length (keys a))"
      by simp_all
    then show ?thesis
      using inorder_from_mid [of "children a" "keys a" "children b" k "keys b"]
      by (simp add: merged_child_def inorder_eq)
  qed
qed

lemma inorder_from_last:
  assumes "length cs = Suc (length ks)" "ks \<noteq> []"
  shows "inorder_from cs ks =
         inorder_from (butlast cs) (butlast ks) @ last ks # inorder (last cs)"
proof -
  have cs: "cs \<noteq> []" using assms(1) by auto
  have "inorder_from (butlast cs @ [last cs]) (butlast ks @ last ks # []) =
        inorder_from (butlast cs) (butlast ks) @ last ks # inorder_from [last cs] []"
    by (rule inorder_from_mid) (use assms in simp)
  then show ?thesis using cs assms(2) by simp
qed

lemma inorder_from_first:
  assumes "cs \<noteq> []" "ks \<noteq> []"
  shows "inorder_from cs ks = inorder (hd cs) @ hd ks # inorder_from (tl cs) (tl ks)"
  using assms by (cases cs; cases ks) simp_all

text \<open>
  A borrow moves the separating key \<open>k\<close> down and a key of the sibling up; \<open>X\<close> is the walk
  of the subtree that changes sides (empty at the leaves).
\<close>

lemma prev_props:
  assumes "bt t d c" "bt t d s" "t \<le> length (keys s)" "length (keys c) < 2 * t - 1" "2 \<le> t"
  shows "bt t d (prev_child c k s)" "bt t d (prev_sibling c s)"
    "length (keys (prev_child c k s)) = Suc (length (keys c))"
    "\<exists>X. inorder s = inorder (prev_sibling c s) @ last (keys s) # X \<and>
         inorder (prev_child c k s) = X @ k # inorder c"
proof -
  have ne: "keys s \<noteq> []" using assms(3,5) by auto
  show "length (keys (prev_child c k s)) = Suc (length (keys c))"
    by (simp add: prev_child_def)
  show "bt t d (prev_child c k s)"
  proof (cases d)
    case 0
    with assms show ?thesis by (simp add: prev_child_def)
  next
    case (Suc d')
    with assms(2) have "children s \<noteq> []" by auto
    then have "last (children s) \<in> set (children s)" by simp
    with Suc assms show ?thesis by (auto simp: prev_child_def)
  qed
  show "bt t d (prev_sibling c s)"
    using assms by (cases d) (auto simp: prev_sibling_def dest: in_set_butlastD)
  show "\<exists>X. inorder s = inorder (prev_sibling c s) @ last (keys s) # X \<and>
         inorder (prev_child c k s) = X @ k # inorder c"
  proof (cases d)
    case 0
    with assms(1,2) have "is_leaf c" "is_leaf s" by simp_all
    then have "inorder s = inorder (prev_sibling c s) @ last (keys s) # [] \<and>
         inorder (prev_child c k s) = [] @ k # inorder c"
      using ne by (simp add: inorder_eq prev_sibling_def prev_child_def)
    then show ?thesis by blast
  next
    case (Suc d')
    with assms(1,2) have nl: "\<not> is_leaf c" "\<not> is_leaf s"
      and len: "length (children s) = Suc (length (keys s))" by simp_all
    have "inorder s = inorder (prev_sibling c s) @ last (keys s) # inorder (last (children s)) \<and>
         inorder (prev_child c k s) = inorder (last (children s)) @ k # inorder c"
      using nl inorder_from_last [OF len ne]
      by (simp add: inorder_eq prev_sibling_def prev_child_def)
    then show ?thesis by blast
  qed
qed

lemma next_props:
  assumes "bt t d c" "bt t d s" "t \<le> length (keys s)" "length (keys c) < 2 * t - 1" "2 \<le> t"
  shows "bt t d (next_child c k s)" "bt t d (next_sibling c s)"
    "length (keys (next_child c k s)) = Suc (length (keys c))"
    "\<exists>X. inorder s = X @ hd (keys s) # inorder (next_sibling c s) \<and>
         inorder (next_child c k s) = inorder c @ k # X"
proof -
  have ne: "keys s \<noteq> []" using assms(3,5) by auto
  show "length (keys (next_child c k s)) = Suc (length (keys c))"
    by (simp add: next_child_def)
  show "bt t d (next_child c k s)"
  proof (cases d)
    case 0
    with assms show ?thesis by (simp add: next_child_def)
  next
    case (Suc d')
    with assms(2) have "children s \<noteq> []" by auto
    then have "hd (children s) \<in> set (children s)" by simp
    with Suc assms show ?thesis by (auto simp: next_child_def)
  qed
  show "bt t d (next_sibling c s)"
    using assms by (cases d) (auto simp: next_sibling_def dest: list.set_sel(2) [rotated])
  show "\<exists>X. inorder s = X @ hd (keys s) # inorder (next_sibling c s) \<and>
         inorder (next_child c k s) = inorder c @ k # X"
  proof (cases d)
    case 0
    with assms(1,2) have "is_leaf c" "is_leaf s" by simp_all
    then have "inorder s = [] @ hd (keys s) # inorder (next_sibling c s) \<and>
         inorder (next_child c k s) = inorder c @ k # []"
      using ne by (simp add: inorder_eq next_sibling_def next_child_def)
    then show ?thesis by blast
  next
    case (Suc d')
    with assms(1,2) have nl: "\<not> is_leaf c" "\<not> is_leaf s"
      and len: "length (children s) = Suc (length (keys s))"
      and lenc: "length (children c) = Suc (length (keys c))" by simp_all
    have cne: "children s \<noteq> []" using len by auto
    have "inorder s = inorder (hd (children s)) @ hd (keys s) # inorder (next_sibling c s) \<and>
         inorder (next_child c k s) = inorder c @ k # inorder (hd (children s))"
      using nl inorder_from_first [OF cne ne]
        inorder_from_mid [OF lenc, of "[hd (children s)]" k "[]"]
      by (simp add: inorder_eq next_sibling_def next_child_def)
    then show ?thesis by blast
  qed
qed

section \<open>Filling a child before descending into it\<close>

text \<open>
  The index of the child that the deletion descends into after \<^verbatim>\<open>fill(idx)\<close>:
  \<^verbatim>\<open>idx - 1\<close> if \<^verbatim>\<open>flag and idx > len(self.keys)\<close>, else \<^verbatim>\<open>idx\<close>.
\<close>

definition fill_target :: "node \<Rightarrow> nat \<Rightarrow> node \<Rightarrow> nat" where
  "fill_target n idx n1 =
     (if idx = length (keys n) \<and> idx > length (keys n1) then idx - 1 else idx)"

lemma node_at2:
  assumes "length (children n) = length (keys n) + 1" "i < length (keys n)"
  shows "keys n = take i (keys n) @ keys n ! i # drop (Suc i) (keys n)"
    and "children n = take i (children n) @ children n ! i # children n ! Suc i #
           drop (Suc (Suc i)) (children n)"
proof -
  show "keys n = take i (keys n) @ keys n ! i # drop (Suc i) (keys n)"
    using assms(2) by (simp add: id_take_nth_drop [symmetric])
  have "children n = take i (children n) @ children n ! i # drop (Suc i) (children n)"
    using assms by (simp add: id_take_nth_drop [symmetric])
  moreover have "drop (Suc i) (children n) = children n ! Suc i # drop (Suc (Suc i)) (children n)"
    using assms by (simp add: Cons_nth_drop_Suc)
  ultimately show "children n = take i (children n) @ children n ! i # children n ! Suc i #
           drop (Suc (Suc i)) (children n)" by simp
qed

lemma fill_borrow_prev:
  assumes t: "2 \<le> t" and ok: "node_ok t (Suc d) lo n"
    and idx: "idx \<le> length (keys n)" "idx \<noteq> 0"
    and small: "length (keys (children n ! idx)) < t"
    and spare: "t \<le> length (keys (children n ! (idx - 1)))"
  shows "\<exists>n1. fill n idx = Some n1 \<and> node_ok t (Suc d) lo n1 \<and>
     length (keys n1) = length (keys n) \<and> inorder n1 = inorder n \<and>
     t \<le> length (keys (children n1 ! idx)) \<and>
     set (lefts_at n1 idx) \<subseteq> set (lefts_at n idx) \<and>
     set (rights_at n1 idx) \<subseteq> set (rights_at n idx)"
proof -
  from ok have shape: "min_degree n = t" "lo \<le> length (keys n)" "length (keys n) \<le> 2 * t - 1"
    "\<not> is_leaf n" "length (children n) = length (keys n) + 1" "\<forall>c\<in>set (children n). bt t d c"
    by (simp_all add: node_ok_Suc)
  define i where "i = idx - 1"
  have i: "i < length (keys n)" "idx = Suc i" using idx by (simp_all add: i_def)
  define kl where "kl = take i (keys n)"
  define kr where "kr = drop (Suc i) (keys n)"
  define k where "k = keys n ! i"
  define cl where "cl = take i (children n)"
  define cr where "cr = drop (Suc (Suc i)) (children n)"
  define s where "s = children n ! i"
  define c where "c = children n ! Suc i"
  note d2 = node_at2 [OF shape(5) i(1)]
  have ks: "keys n = kl @ k # kr" and cs: "children n = cl @ s # c # cr"
    using d2 by (simp_all add: kl_def kr_def k_def cl_def cr_def s_def c_def)
  have len: "length cl = length kl" "length cr = length kr" "i = length kl"
    using shape(5) i(1) by (simp_all add: cl_def kl_def cr_def kr_def)
  have n: "n = Node (kl @ k # kr) t (cl @ s # c # cr) False"
    using ks cs shape(1,4) by (cases n) simp
  have bts: "bt t d s" "bt t d c" "\<forall>x\<in>set cl. bt t d x" "\<forall>x\<in>set cr. bt t d x"
    using shape(6) by (simp_all add: cs)
  have sm: "length (keys c) < t" and sp: "t \<le> length (keys s)"
    using small spare by (simp_all add: c_def s_def i)
  have lt: "length (keys c) < 2 * t - 1" using sm t by simp
  note pp = prev_props [OF bts(2,1) sp lt t]
  have ne: "keys s \<noteq> []" "\<not> is_leaf c \<longrightarrow> children s \<noteq> []"
    using sp t bts(1,2) by (cases d; auto)+
  let ?n1 = "Node (kl @ last (keys s) # kr) t (cl @ prev_sibling c s # prev_child c k s # cr) False"
  have "fill n idx = borrow_from_prev n idx"
    using idx(2) spare shape(1,5) i by (simp add: fill_def py_get_def)
  also have "\<dots> = Some ?n1"
    using borrow_from_prev_app [OF len(1) ne, of k kr t cr False]
    by (subst n) (simp add: i len(3))
  finally have res: "fill n idx = Some ?n1" .
  have ok1: "node_ok t (Suc d) lo ?n1"
    using shape(2,3) pp(1) [of k] pp(2) bts(3,4) len by (simp add: node_ok_Suc ks ball_Un)
  from pp(4) [of k] obtain X where X: "inorder s = inorder (prev_sibling c s) @ last (keys s) # X"
    "inorder (prev_child c k s) = X @ k # inorder c" by blast
  have ino_n: "inorder n = lefts cl kl @ inorder s @ k # inorder c @ rights kr cr"
    using len inorder_from_split [of cl kl "c # cr" "k # kr" s]
    by (subst n) simp
  have ino1: "inorder ?n1 = lefts cl kl @ inorder (prev_sibling c s) @
      last (keys s) # inorder (prev_child c k s) @ rights kr cr"
    using len inorder_from_split [of cl kl "prev_child c k s # cr" "last (keys s) # kr"
        "prev_sibling c s"]
    by simp
  have ino: "inorder ?n1 = inorder n" unfolding ino1 ino_n X by simp
  have c1: "children ?n1 ! idx = prev_child c k s"
    using len by (simp add: i nth_append)
  have la1: "lefts_at ?n1 idx = lefts cl kl @ inorder (prev_sibling c s) @ [last (keys s)]"
    using len lefts_snoc [of cl kl "prev_sibling c s" "last (keys s)"]
    by (simp add: lefts_at_def i)
  have la: "lefts_at n idx = lefts cl kl @ inorder s @ [k]"
    using len lefts_snoc [of cl kl s k]
    by (simp add: lefts_at_def i ks cs)
  have ra1: "rights_at ?n1 idx = rights kr cr"
    using len by (simp add: rights_at_def i)
  have ra: "rights_at n idx = rights kr cr"
    using len by (simp add: rights_at_def i ks cs)
  have "set (lefts_at ?n1 idx) \<subseteq> set (lefts_at n idx)"
    unfolding la1 la X by auto
  moreover have "t \<le> length (keys (children ?n1 ! idx))"
    using pp(3) [of k] sm small shape(6) bts(2) t unfolding c1 by (cases d) auto
  ultimately show ?thesis
    using res ok1 ino ra1 ra by (intro exI [of _ ?n1]) (simp add: ks)
qed


lemma fill_borrow_next:
  assumes t: "2 \<le> t" and ok: "node_ok t (Suc d) lo n"
    and idx: "idx < length (keys n)"
    and small: "length (keys (children n ! idx)) < t"
    and nospare: "idx = 0 \<or> length (keys (children n ! (idx - 1))) < t"
    and spare: "t \<le> length (keys (children n ! (idx + 1)))"
  shows "\<exists>n1. fill n idx = Some n1 \<and> node_ok t (Suc d) lo n1 \<and>
     length (keys n1) = length (keys n) \<and> inorder n1 = inorder n \<and>
     t \<le> length (keys (children n1 ! idx)) \<and>
     set (lefts_at n1 idx) \<subseteq> set (lefts_at n idx) \<and>
     set (rights_at n1 idx) \<subseteq> set (rights_at n idx)"
proof -
  from ok have shape: "min_degree n = t" "lo \<le> length (keys n)" "length (keys n) \<le> 2 * t - 1"
    "\<not> is_leaf n" "length (children n) = length (keys n) + 1" "\<forall>c\<in>set (children n). bt t d c"
    by (simp_all add: node_ok_Suc)
  define kl where "kl = take idx (keys n)"
  define kr where "kr = drop (Suc idx) (keys n)"
  define k where "k = keys n ! idx"
  define cl where "cl = take idx (children n)"
  define cr where "cr = drop (Suc (Suc idx)) (children n)"
  define c where "c = children n ! idx"
  define s where "s = children n ! Suc idx"
  note d2 = node_at2 [OF shape(5) idx]
  have ks: "keys n = kl @ k # kr" and cs: "children n = cl @ c # s # cr"
    using d2 by (simp_all add: kl_def kr_def k_def cl_def cr_def s_def c_def)
  have len: "length cl = length kl" "length cr = length kr" "idx = length kl"
    using shape(5) idx by (simp_all add: cl_def kl_def cr_def kr_def)
  have n: "n = Node (kl @ k # kr) t (cl @ c # s # cr) False"
    using ks cs shape(1,4) by (cases n) simp
  have bts: "bt t d s" "bt t d c" "\<forall>x\<in>set cl. bt t d x" "\<forall>x\<in>set cr. bt t d x"
    using shape(6) by (simp_all add: cs)
  have sm: "length (keys c) < t" and sp: "t \<le> length (keys s)"
    using small spare by (simp_all add: c_def s_def)
  have lt: "length (keys c) < 2 * t - 1" using sm t by simp
  note pp = next_props [OF bts(2,1) sp lt t]
  have ne: "keys s \<noteq> []" "\<not> is_leaf c \<longrightarrow> children s \<noteq> []"
    using sp t bts(1,2) by (cases d; auto)+
  let ?n1 = "Node (kl @ hd (keys s) # kr) t (cl @ next_child c k s # next_sibling c s # cr) False"
  have "fill n idx = borrow_from_next n idx"
    using idx nospare spare shape(1,5) by (auto simp: fill_def py_get_def)
  also have "\<dots> = Some ?n1"
    using borrow_from_next_app [OF len(1) ne, of k kr t cr False]
    by (subst n) (simp add: len(3))
  finally have res: "fill n idx = Some ?n1" .
  have ok1: "node_ok t (Suc d) lo ?n1"
    using shape(2,3) pp(1) [of k] pp(2) bts(3,4) len by (simp add: node_ok_Suc ks ball_Un)
  from pp(4) [of k] obtain X where X: "inorder s = X @ hd (keys s) # inorder (next_sibling c s)"
    "inorder (next_child c k s) = inorder c @ k # X" by blast
  have ino_n: "inorder n = lefts cl kl @ inorder c @ k # inorder s @ rights kr cr"
    using len inorder_from_split [of cl kl "s # cr" "k # kr" c]
    by (subst n) simp
  have ino1: "inorder ?n1 = lefts cl kl @ inorder (next_child c k s) @
      hd (keys s) # inorder (next_sibling c s) @ rights kr cr"
    using len inorder_from_split [of cl kl "next_sibling c s # cr" "hd (keys s) # kr"
        "next_child c k s"]
    by simp
  have ino: "inorder ?n1 = inorder n" unfolding ino1 ino_n X by simp
  have c1: "children ?n1 ! idx = next_child c k s"
    using len by (simp add: nth_append)
  have la1: "lefts_at ?n1 idx = lefts cl kl"
    using len by (simp add: lefts_at_def)
  have la: "lefts_at n idx = lefts cl kl"
    using len by (simp add: lefts_at_def ks cs)
  have ra1: "rights_at ?n1 idx = hd (keys s) # inorder (next_sibling c s) @ rights kr cr"
    using len by (simp add: rights_at_def)
  have ra: "rights_at n idx = k # inorder s @ rights kr cr"
    using len by (simp add: rights_at_def ks cs)
  have "set (rights_at ?n1 idx) \<subseteq> set (rights_at n idx)"
    unfolding ra1 ra X by auto
  moreover have "t \<le> length (keys (children ?n1 ! idx))"
    using pp(3) [of k] sm bts(2) t unfolding c1 by (cases d) auto
  ultimately show ?thesis
    using res ok1 ino la1 la by (intro exI [of _ ?n1]) (simp add: ks)
qed

lemma fill_merge_next:
  assumes t: "2 \<le> t" and ok: "node_ok t (Suc d) lo n"
    and idx: "idx < length (keys n)"
    and small: "length (keys (children n ! idx)) < t"
    and nospare: "idx = 0 \<or> length (keys (children n ! (idx - 1))) < t"
      "length (keys (children n ! (idx + 1))) < t"
  shows "\<exists>n1. fill n idx = Some n1 \<and> node_ok t (Suc d) (length (keys n) - 1) n1 \<and>
     Suc (length (keys n1)) = length (keys n) \<and> inorder n1 = inorder n \<and>
     t \<le> length (keys (children n1 ! idx)) \<and>
     set (lefts_at n1 idx) \<subseteq> set (lefts_at n idx) \<and>
     set (rights_at n1 idx) \<subseteq> set (rights_at n idx)"
proof -
  from ok have shape: "min_degree n = t" "lo \<le> length (keys n)" "length (keys n) \<le> 2 * t - 1"
    "\<not> is_leaf n" "length (children n) = length (keys n) + 1" "\<forall>c\<in>set (children n). bt t d c"
    by (simp_all add: node_ok_Suc)
  define kl where "kl = take idx (keys n)"
  define kr where "kr = drop (Suc idx) (keys n)"
  define k where "k = keys n ! idx"
  define cl where "cl = take idx (children n)"
  define cr where "cr = drop (Suc (Suc idx)) (children n)"
  define c where "c = children n ! idx"
  define s where "s = children n ! Suc idx"
  note d2 = node_at2 [OF shape(5) idx]
  have ks: "keys n = kl @ k # kr" and cs: "children n = cl @ c # s # cr"
    using d2 by (simp_all add: kl_def kr_def k_def cl_def cr_def s_def c_def)
  have len: "length cl = length kl" "length cr = length kr" "idx = length kl"
    using shape(5) idx by (simp_all add: cl_def kl_def cr_def kr_def)
  have n: "n = Node (kl @ k # kr) t (cl @ c # s # cr) False"
    using ks cs shape(1,4) by (cases n) simp
  have bts: "bt t d s" "bt t d c" "\<forall>x\<in>set cl. bt t d x" "\<forall>x\<in>set cr. bt t d x"
    using shape(6) by (simp_all add: cs)
  have ge: "t - 1 \<le> length (keys c)" "t - 1 \<le> length (keys s)"
    using bts(1,2) by (cases d, simp_all)+
  have "length (keys c) < t" "length (keys s) < t"
    using small nospare(2) by (simp_all add: c_def s_def)
  with ge have sm: "length (keys c) = t - 1" "length (keys s) = t - 1" by simp_all
  have sum: "length (keys c) + length (keys s) + 1 \<le> 2 * t - 1" using sm t by simp
  note mp = merged_child_props [OF bts(2,1) sum]
  let ?n1 = "Node (kl @ kr) t (cl @ merged_child c k s # cr) False"
  have "fill n idx = merge n idx"
    using idx nospare shape(1,5) by (auto simp: fill_def py_get_def)
  also have "\<dots> = Some ?n1"
    using merge_app [OF len(1), of k kr t c s cr False]
    by (subst n) (simp add: len(3))
  finally have res: "fill n idx = Some ?n1" .
  have ok1: "node_ok t (Suc d) (length (keys n) - 1) ?n1"
    using shape(3) mp(1) [of k] bts(3,4) len by (simp add: node_ok_Suc ks ball_Un)
  have ino_n: "inorder n = lefts cl kl @ inorder c @ k # inorder s @ rights kr cr"
    using len inorder_from_split [of cl kl "s # cr" "k # kr" c]
    by (subst n) simp
  have ino1: "inorder ?n1 = lefts cl kl @ inorder (merged_child c k s) @ rights kr cr"
    using len inorder_from_split [of cl kl cr kr "merged_child c k s"]
    by simp
  have ino: "inorder ?n1 = inorder n" unfolding ino1 ino_n mp(2) by simp
  have c1: "children ?n1 ! idx = merged_child c k s"
    using len by (simp add: nth_append)
  have la1: "lefts_at ?n1 idx = lefts cl kl"
    using len by (simp add: lefts_at_def)
  have la: "lefts_at n idx = lefts cl kl"
    using len by (simp add: lefts_at_def ks cs)
  have ra1: "rights_at ?n1 idx = rights kr cr"
    using len by (simp add: rights_at_def)
  have ra: "rights_at n idx = k # inorder s @ rights kr cr"
    using len by (simp add: rights_at_def ks cs)
  have "set (rights_at ?n1 idx) \<subseteq> set (rights_at n idx)"
    unfolding ra1 ra by auto
  moreover have "t \<le> length (keys (children ?n1 ! idx))"
    using mp(3) [of k] sm t unfolding c1 by simp
  ultimately show ?thesis
    using res ok1 ino la1 la by (intro exI [of _ ?n1]) (simp add: ks)
qed

lemma fill_merge_prev:
  assumes t: "2 \<le> t" and ok: "node_ok t (Suc d) lo n"
    and idx: "idx = length (keys n)" "idx \<noteq> 0"
    and small: "length (keys (children n ! idx)) < t"
    and nospare: "length (keys (children n ! (idx - 1))) < t"
  shows "\<exists>n1. fill n idx = Some n1 \<and> node_ok t (Suc d) (length (keys n) - 1) n1 \<and>
     Suc (length (keys n1)) = length (keys n) \<and> inorder n1 = inorder n \<and>
     t \<le> length (keys (children n1 ! (idx - 1))) \<and>
     set (lefts_at n1 (idx - 1)) \<subseteq> set (lefts_at n idx) \<and>
     set (rights_at n1 (idx - 1)) \<subseteq> set (rights_at n idx)"
proof -
  from ok have shape: "min_degree n = t" "lo \<le> length (keys n)" "length (keys n) \<le> 2 * t - 1"
    "\<not> is_leaf n" "length (children n) = length (keys n) + 1" "\<forall>c\<in>set (children n). bt t d c"
    by (simp_all add: node_ok_Suc)
  define i where "i = idx - 1"
  have i: "i < length (keys n)" "idx = Suc i" "Suc i = length (keys n)"
    using idx by (simp_all add: i_def)
  define kl where "kl = take i (keys n)"
  define k where "k = keys n ! i"
  define cl where "cl = take i (children n)"
  define s where "s = children n ! i"
  define c where "c = children n ! Suc i"
  note d2 = node_at2 [OF shape(5) i(1)]
  have ks: "keys n = kl @ [k]" and cs: "children n = cl @ [s, c]"
    using d2 i(3) shape(5) by (simp_all add: kl_def k_def cl_def s_def c_def)
  have len: "length cl = length kl" "i = length kl"
    using shape(5) i(1) by (simp_all add: cl_def kl_def)
  have n: "n = Node (kl @ [k]) t (cl @ [s, c]) False"
    using ks cs shape(1,4) by (cases n) simp
  have bts: "bt t d s" "bt t d c" "\<forall>x\<in>set cl. bt t d x"
    using shape(6) by (simp_all add: cs)
  have ge: "t - 1 \<le> length (keys c)" "t - 1 \<le> length (keys s)"
    using bts(1,2) by (cases d, simp_all)+
  have "length (keys c) < t" "length (keys s) < t"
    using small nospare by (simp_all add: c_def s_def i(2))
  with ge have sm: "length (keys c) = t - 1" "length (keys s) = t - 1" by simp_all
  have sum: "length (keys s) + length (keys c) + 1 \<le> 2 * t - 1" using sm t by simp
  note mp = merged_child_props [OF bts(1,2) sum]
  let ?n1 = "Node kl t (cl @ [merged_child s k c]) False"
  have "fill n idx = merge n (idx - 1)"
    using idx nospare shape(1,5) by (auto simp: fill_def py_get_def)
  also have "\<dots> = Some ?n1"
    using merge_app [OF len(1), of k "[]" t s c "[]" False]
    by (subst n) (simp add: i len(2))
  finally have res: "fill n idx = Some ?n1" .
  have ok1: "node_ok t (Suc d) (length (keys n) - 1) ?n1"
    using shape(3) mp(1) [of k] bts(3) len by (simp add: node_ok_Suc ks ball_Un)
  have ino_n: "inorder n = lefts cl kl @ inorder s @ k # inorder c"
    using len inorder_from_split [of cl kl "[c]" "[k]" s]
    by (subst n) simp
  have ino1: "inorder ?n1 = lefts cl kl @ inorder (merged_child s k c)"
    using len inorder_from_split [of cl kl "[]" "[]" "merged_child s k c"]
    by simp
  have ino: "inorder ?n1 = inorder n" unfolding ino1 ino_n mp(2) by simp
  have c1: "children ?n1 ! (idx - 1) = merged_child s k c"
    using len by (simp add: nth_append i)
  have la1: "lefts_at ?n1 (idx - 1) = lefts cl kl"
    using len by (simp add: lefts_at_def i)
  have la: "lefts_at n idx = lefts cl kl @ inorder s @ [k]"
    using len lefts_snoc [of cl kl s k] by (simp add: lefts_at_def ks cs i)
  have ra1: "rights_at ?n1 (idx - 1) = []"
    using len by (simp add: rights_at_def i)
  have "set (lefts_at ?n1 (idx - 1)) \<subseteq> set (lefts_at n idx)"
    unfolding la1 la by auto
  moreover have "t \<le> length (keys (children ?n1 ! (idx - 1)))"
    using mp(3) [of k] sm t unfolding c1 by simp
  ultimately show ?thesis
    using res ok1 ino ra1 by (intro exI [of _ ?n1]) (simp add: ks)
qed

definition fill_post :: "nat \<Rightarrow> nat \<Rightarrow> node \<Rightarrow> nat \<Rightarrow> node \<Rightarrow> bool" where
  "fill_post t d n idx n1 =
     (node_ok t (Suc d) (length (keys n) - 1) n1 \<and> inorder n1 = inorder n \<and>
      fill_target n idx n1 \<le> length (keys n1) \<and>
      t \<le> length (keys (children n1 ! fill_target n idx n1)) \<and>
      set (lefts_at n1 (fill_target n idx n1)) \<subseteq> set (lefts_at n idx) \<and>
      set (rights_at n1 (fill_target n idx n1)) \<subseteq> set (rights_at n idx))"

lemma fill_correct:
  assumes t: "2 \<le> t" and ok: "node_ok t (Suc d) lo n"
    and k1: "1 \<le> length (keys n)" and idx: "idx \<le> length (keys n)"
    and small: "length (keys (children n ! idx)) < t"
  shows "\<exists>n1. fill n idx = Some n1 \<and> fill_post t d n idx n1"
proof -
  have lo: "node_ok t (Suc d) (length (keys n) - 1) n"
    using ok by (auto simp: node_ok_def)
  consider
    (prev) "idx \<noteq> 0" "t \<le> length (keys (children n ! (idx - 1)))"
  | (nxt) "idx < length (keys n)" "idx = 0 \<or> length (keys (children n ! (idx - 1))) < t"
      "t \<le> length (keys (children n ! (idx + 1)))"
  | (mnext) "idx < length (keys n)" "idx = 0 \<or> length (keys (children n ! (idx - 1))) < t"
      "length (keys (children n ! (idx + 1))) < t"
  | (mprev) "idx = length (keys n)" "idx \<noteq> 0" "length (keys (children n ! (idx - 1))) < t"
    using idx k1 by (cases "idx = length (keys n)"; cases "idx = 0"; force)
  then show ?thesis
  proof cases
    case prev
    from fill_borrow_prev [OF t lo idx prev(1) small prev(2)] show ?thesis
      using idx by (auto simp: fill_post_def fill_target_def)
  next
    case nxt
    from fill_borrow_next [OF t lo nxt(1) small nxt(2,3)] show ?thesis
      using idx by (auto simp: fill_post_def fill_target_def)
  next
    case mnext
    from fill_merge_next [OF t ok mnext(1) small mnext(2,3)] show ?thesis
      using mnext(1) by (auto simp: fill_post_def fill_target_def)
  next
    case mprev
    from fill_merge_prev [OF t ok mprev(1,2) small mprev(3)] show ?thesis
      using mprev(1,2) by (auto simp: fill_post_def fill_target_def)
  qed
qed

section \<open>Deletion\<close>

text \<open>
  The two files share the text of \<^verbatim>\<open>remove_from_non_leaf\<close> and of the descent of the
  deletion into a child; they differ in the routine that is called recursively. The two
  bodies are stated once, with the recursive routine \<open>D\<close> as a parameter, and each routine
  of each file is shown to be an instance.
\<close>

definition rfnl_body :: "(node \<Rightarrow> int \<Rightarrow> node option) \<Rightarrow> node \<Rightarrow> nat \<Rightarrow> node option" where
  "rfnl_body D n idx = do {
     key \<leftarrow> py_get (keys n) idx;
     left \<leftarrow> py_get (children n) idx;
     if length (keys left) \<ge> min_degree n then do {
       pred \<leftarrow> get_predecessor left;
       left' \<leftarrow> D left pred;
       Some (Node ((keys n)[idx := pred]) (min_degree n) ((children n)[idx := left']) (is_leaf n))
     } else do {
       right \<leftarrow> py_get (children n) (idx + 1);
       if length (keys right) \<ge> min_degree n then do {
         succ \<leftarrow> get_successor right;
         right' \<leftarrow> D right succ;
         Some (Node ((keys n)[idx := succ]) (min_degree n) ((children n)[idx + 1 := right'])
                 (is_leaf n))
       } else do {
         n1 \<leftarrow> merge n idx;
         merged \<leftarrow> py_get (children n1) idx;
         merged' \<leftarrow> D merged key;
         Some (set_child n1 idx merged')
       }
     }
   }"

definition descend_body :: "(node \<Rightarrow> int \<Rightarrow> node option) \<Rightarrow> node \<Rightarrow> int \<Rightarrow> nat \<Rightarrow> node option" where
  "descend_body D n key idx = do {
     c \<leftarrow> py_get (children n) idx;
     n1 \<leftarrow> (if length (keys c) < min_degree n then fill n idx else Some n);
     cj \<leftarrow> py_get (children n1) (fill_target n idx n1);
     cj' \<leftarrow> D cj key;
     Some (set_child n1 (fill_target n idx n1) cj')
   }"

lemma remove_from_non_leaf_body: "remove_from_non_leaf n idx = rfnl_body delete_internal n idx"
  by (simp add: remove_from_non_leaf.simps rfnl_body_def)

lemma main_remove_from_non_leaf_body:
  "main_remove_from_non_leaf n idx = rfnl_body main_node_delete n idx"
  by (simp add: main_remove_from_non_leaf.simps rfnl_body_def)

lemma delete_internal_body:
  "delete_internal n key =
     (if get_key_index n key < length (keys n) \<and> keys n ! get_key_index n key = key then
        (if is_leaf n then remove_from_leaf n (get_key_index n key)
         else rfnl_body delete_internal n (get_key_index n key))
      else descend_body delete_internal n key (get_key_index n key))"
  by (subst delete_internal.simps)
     (simp add: Let_def descend_body_def fill_target_def remove_from_non_leaf_body)

lemma main_node_delete_body:
  "main_node_delete n key =
     (if get_key_index n key < length (keys n) \<and> keys n ! get_key_index n key = key then
        (if is_leaf n then remove_from_leaf n (get_key_index n key)
         else rfnl_body main_node_delete n (get_key_index n key))
      else if is_leaf n then Some n
      else descend_body main_node_delete n key (get_key_index n key))"
  by (subst main_node_delete.simps)
     (simp add: Let_def descend_body_def fill_target_def main_remove_from_non_leaf_body)

text \<open>What a deletion of \<open>key\<close> from the subtree \<open>n\<close> of depth \<open>d\<close> has to establish.\<close>

definition del_post :: "nat \<Rightarrow> nat \<Rightarrow> node \<Rightarrow> int \<Rightarrow> node \<Rightarrow> bool" where
  "del_post t d n key n' =
     (node_ok t d (length (keys n) - 1) n' \<and> sorted (inorder n') \<and>
      mset (inorder n') = mset (inorder n) - {#key#})"

text \<open>
  The recursive routine \<open>D\<close> is correct on the children: nodes of depth \<open>d\<close> with at least
  \<open>t\<close> keys. With \<open>strict\<close> it is only asked to work on keys that are present.
\<close>

definition del_ok :: "nat \<Rightarrow> nat \<Rightarrow> bool \<Rightarrow> (node \<Rightarrow> int \<Rightarrow> node option) \<Rightarrow> bool" where
  "del_ok t d strict D =
     (\<forall>c k. bt t d c \<and> t \<le> length (keys c) \<and> sorted (inorder c) \<and>
            (strict \<longrightarrow> k \<in> set (inorder c)) \<longrightarrow>
        (\<exists>c'. D c k = Some c' \<and> del_post t d c k c'))"

lemma del_okD:
  assumes "del_ok t d strict D" "bt t d c" "t \<le> length (keys c)" "sorted (inorder c)"
    "k \<in> set (inorder c)"
  obtains c' where "D c k = Some c'" "bt t d c'" "sorted (inorder c')"
    "mset (inorder c') = mset (inorder c) - {#k#}"
proof -
  from assms obtain c' where c': "D c k = Some c'" "del_post t d c k c'"
    unfolding del_ok_def by blast
  from c'(2) assms(3) have "bt t d c'"
    by (auto simp: del_post_def bt_node_ok intro: node_ok_mono)
  with c' that show ?thesis by (simp add: del_post_def)
qed

subsection \<open>Predecessor and successor\<close>

lemma inorder_nonempty: "node_ok t d lo n \<Longrightarrow> keys n \<noteq> [] \<Longrightarrow> inorder n \<noteq> []"
  using keys_subset_inorder [of t d lo n] by auto

lemma get_predecessor_correct:
  assumes t: "2 \<le> t"
  shows "node_ok t d lo n \<Longrightarrow> keys n \<noteq> [] \<Longrightarrow> get_predecessor n = Some (last (inorder n))"
proof (induction d arbitrary: n lo)
  case 0
  then show ?case
    by (subst get_predecessor.simps) (simp add: node_ok_0 inorder_eq py_last_def)
next
  case (Suc d)
  from Suc.prems(1) have shape: "\<not> is_leaf n" "length (children n) = Suc (length (keys n))"
    "\<forall>c\<in>set (children n). bt t d c" by (simp_all add: node_ok_Suc)
  let ?c = "last (children n)"
  have cne: "children n \<noteq> []" using shape(2) by auto
  then have "?c \<in> set (children n)" by simp
  then have "bt t d ?c" using shape(3) by blast
  then have c: "node_ok t d (t - 1) ?c" by (simp add: bt_node_ok)
  then have kne: "keys ?c \<noteq> []" using t by (auto simp: node_ok_def)
  have ine: "inorder ?c \<noteq> []" using c kne by (rule inorder_nonempty)
  have "get_predecessor n = get_predecessor ?c"
    using shape(1) cne by (subst get_predecessor.simps) (simp add: py_last_def)
  also have "\<dots> = Some (last (inorder ?c))" using c kne by (rule Suc.IH)
  also have "last (inorder ?c) = last (inorder n)"
    using shape(1) ine inorder_from_last [OF shape(2) Suc.prems(2)]
    by (simp add: inorder_eq [of n])
  finally show ?case .
qed

lemma get_successor_correct:
  assumes t: "2 \<le> t"
  shows "node_ok t d lo n \<Longrightarrow> keys n \<noteq> [] \<Longrightarrow> get_successor n = Some (hd (inorder n))"
proof (induction d arbitrary: n lo)
  case 0
  then show ?case
    by (subst get_successor.simps) (simp add: node_ok_0 inorder_eq py_get_def hd_conv_nth)
next
  case (Suc d)
  from Suc.prems(1) have shape: "\<not> is_leaf n" "length (children n) = Suc (length (keys n))"
    "\<forall>c\<in>set (children n). bt t d c" by (simp_all add: node_ok_Suc)
  let ?c = "hd (children n)"
  have cne: "children n \<noteq> []" using shape(2) by auto
  then have "?c \<in> set (children n)" by simp
  then have "bt t d ?c" using shape(3) by blast
  then have c: "node_ok t d (t - 1) ?c" by (simp add: bt_node_ok)
  then have kne: "keys ?c \<noteq> []" using t by (auto simp: node_ok_def)
  have ine: "inorder ?c \<noteq> []" using c kne by (rule inorder_nonempty)
  have "get_successor n = get_successor ?c"
    using shape(1) cne by (subst get_successor.simps) (simp add: py_get_def hd_conv_nth)
  also have "\<dots> = Some (hd (inorder ?c))" using c kne by (rule Suc.IH)
  also have "hd (inorder ?c) = hd (inorder n)"
    using shape(1) ine inorder_from_first [OF cne Suc.prems(2)]
    by (simp add: inorder_eq [of n])
  finally show ?case .
qed

subsection \<open>Deleting at a leaf\<close>

lemma delete_leaf_found:
  assumes "node_ok t 0 lo n" "sorted (inorder n)" "idx < length (keys n)"
  shows "\<exists>n'. remove_from_leaf n idx = Some n' \<and> del_post t 0 n (keys n ! idx) n'"
proof -
  let ?ks = "take idx (keys n) @ drop (Suc idx) (keys n)"
  from assms(1) have leaf: "is_leaf n" "children n = []" by (simp_all add: node_ok_0)
  have res: "remove_from_leaf n idx = Some (set_keys n ?ks)"
    using assms(3) by (simp add: remove_from_leaf_def py_pop_def)
  have "keys n = take idx (keys n) @ keys n ! idx # drop (Suc idx) (keys n)"
    using assms(3) by (simp add: id_take_nth_drop [symmetric])
  then have "mset (keys n) = add_mset (keys n ! idx) (mset ?ks)"
    by (metis mset.simps(2) mset_append union_mset_add_mset_right)
  then have m: "mset ?ks = mset (keys n) - {#keys n ! idx#}" by simp
  have "sorted (keys n)" using assms(2) leaf by (simp add: inorder_eq)
  then have "sorted (take idx (keys n) @ keys n ! idx # drop (Suc idx) (keys n))"
    using assms(3) by (simp add: id_take_nth_drop [symmetric])
  then have s: "sorted ?ks" by (auto simp: sorted_append)
  have "node_ok t 0 (length (keys n) - 1) (set_keys n ?ks)"
    using assms(1,3) by (auto simp: node_ok_0 set_keys_def)
  then show ?thesis
    using res m s leaf by (simp add: del_post_def inorder_eq set_keys_def)
qed

lemma delete_leaf_absent:
  assumes "node_ok t 0 lo n" "sorted (inorder n)" "key \<notin> set (inorder n)"
  shows "del_post t 0 n key n"
  using assms by (auto simp: del_post_def node_ok_0)

subsection \<open>Deleting a key of an internal node\<close>

lemma sorted_pred:
  assumes "sorted (A @ C @ k # B)" "sorted C'" "set C' \<subseteq> set C" "C \<noteq> []"
  shows "sorted (A @ C' @ last C # B)"
proof -
  have "sorted C" using assms(1) by (simp add: sorted_append)
  then have "\<forall>x\<in>set C. x \<le> last C" using sorted_le_last by blast
  moreover have "last C \<in> set C" using assms(4) by simp
  ultimately show ?thesis using assms(1,2,3) by (force simp: sorted_append)
qed

lemma sorted_succ:
  assumes "sorted (A @ k # C @ B)" "sorted C'" "set C' \<subseteq> set C" "C \<noteq> []"
  shows "sorted (A @ hd C # C' @ B)"
proof -
  have "sorted C" using assms(1) by (simp add: sorted_append)
  then have "\<forall>x\<in>set C. hd C \<le> x" using sorted_hd_le by blast
  moreover have "hd C \<in> set C" using assms(4) by simp
  ultimately show ?thesis using assms(1,2,3) by (force simp: sorted_append)
qed

lemma rfnl_correct:
  assumes t: "2 \<le> t" and D: "del_ok t d strict D" and ok: "node_ok t (Suc d) lo n"
    and s: "sorted (inorder n)" and idx: "idx < length (keys n)"
  shows "\<exists>n'. rfnl_body D n idx = Some n' \<and> del_post t (Suc d) n (keys n ! idx) n'"
proof -
  from ok have shape: "min_degree n = t" "length (keys n) \<le> 2 * t - 1"
    "\<not> is_leaf n" "length (children n) = length (keys n) + 1" "\<forall>c\<in>set (children n). bt t d c"
    by (simp_all add: node_ok_Suc)
  define kl where "kl = take idx (keys n)"
  define kr where "kr = drop (Suc idx) (keys n)"
  define k where "k = keys n ! idx"
  define cl where "cl = take idx (children n)"
  define cr where "cr = drop (Suc (Suc idx)) (children n)"
  define a where "a = children n ! idx"
  define b where "b = children n ! Suc idx"
  note d2 = node_at2 [OF shape(4) idx]
  have ks: "keys n = kl @ k # kr" and cs: "children n = cl @ a # b # cr"
    using d2 by (simp_all add: kl_def kr_def k_def cl_def cr_def a_def b_def)
  have len: "length cl = length kl" "length cr = length kr" "idx = length kl"
    using shape(4) idx by (simp_all add: cl_def kl_def cr_def kr_def)
  have bts: "bt t d a" "bt t d b" "\<forall>x\<in>set cl. bt t d x" "\<forall>x\<in>set cr. bt t d x"
    using shape(5) by (simp_all add: cs)
  have nks: "length (keys n) = Suc (length kl + length kr)" by (simp add: ks)
  have ino_n: "inorder n = lefts cl kl @ inorder a @ k # inorder b @ rights kr cr"
    using len shape(3) inorder_from_split [of cl kl "b # cr" "k # kr" a]
    by (simp add: inorder_eq [of n] ks cs)
  have sn: "sorted (lefts cl kl @ inorder a @ k # inorder b @ rights kr cr)"
    using s by (simp add: ino_n)
  have sa: "sorted (inorder a)" and sb: "sorted (inorder b)"
    using sn by (simp_all add: sorted_append)
  have get: "py_get (keys n) idx = Some k" "py_get (children n) idx = Some a"
    "py_get (children n) (idx + 1) = Some b"
    using len(1) by (simp_all add: py_get_def ks cs len(3) nth_append)
  have ak: "node_ok t d (t - 1) a" and bk: "node_ok t d (t - 1) b"
    using bts(1,2) by (simp_all add: bt_node_ok)
  have della: "length (keys n) - 1 \<le> length kl + length kr" by (simp add: ks)
  consider (left) "t \<le> length (keys a)"
    | (right) "length (keys a) < t" "t \<le> length (keys b)"
    | (both) "length (keys a) < t" "length (keys b) < t"
    by linarith
  then show ?thesis
  proof cases
    case left
    then have ane: "keys a \<noteq> []" using t by auto
    have ine: "inorder a \<noteq> []" using ak ane by (rule inorder_nonempty)
    let ?p = "last (inorder a)"
    have gp: "get_predecessor a = Some ?p" using t ak ane by (rule get_predecessor_correct)
    have pin: "?p \<in> set (inorder a)" using ine by simp
    from del_okD [OF D bts(1) left sa pin] obtain a' where
      a': "D a ?p = Some a'" "bt t d a'" "sorted (inorder a')"
      "mset (inorder a') = mset (inorder a) - {#?p#}" by blast
    let ?n' = "Node (kl @ ?p # kr) t (cl @ a' # b # cr) False"
    have res: "rfnl_body D n idx = Some ?n'"
      using get left gp a'(1) shape(1,3) len(1)
      by (simp add: rfnl_body_def ks cs len(3) list_update_append)
    have ok': "node_ok t (Suc d) (length (keys n) - 1) ?n'"
      using shape(2) a'(2) bts(2,3,4) len by (simp add: node_ok_Suc ks ball_Un)
    have ino': "inorder ?n' = lefts cl kl @ inorder a' @ ?p # inorder b @ rights kr cr"
      using len inorder_from_split [of cl kl "b # cr" "?p # kr" a'] by simp
    have sub: "set (inorder a') \<subseteq> set (inorder a)" using a'(4) by (rule set_of_diff_mset)
    have so: "sorted (inorder ?n')"
      unfolding ino'
      using sorted_pred [of "lefts cl kl" "inorder a" k "inorder b @ rights kr cr" "inorder a'"]
        sn a'(3) sub ine by simp
    have "add_mset ?p (mset (inorder a')) = mset (inorder a)"
      using a'(4) pin by simp
    then have ms: "mset (inorder ?n') = mset (inorder n) - {#k#}"
      unfolding ino' ino_n by simp
    show ?thesis using res ok' so ms by (simp add: del_post_def k_def)
  next
    case right
    then have bne: "keys b \<noteq> []" using t by auto
    have ine: "inorder b \<noteq> []" using bk bne by (rule inorder_nonempty)
    let ?p = "hd (inorder b)"
    have gp: "get_successor b = Some ?p" using t bk bne by (rule get_successor_correct)
    have pin: "?p \<in> set (inorder b)" using ine by simp
    from del_okD [OF D bts(2) right(2) sb pin] obtain b' where
      b': "D b ?p = Some b'" "bt t d b'" "sorted (inorder b')"
      "mset (inorder b') = mset (inorder b) - {#?p#}" by blast
    let ?n' = "Node (kl @ ?p # kr) t (cl @ a # b' # cr) False"
    have res: "rfnl_body D n idx = Some ?n'"
      using get right gp b'(1) shape(1,3) len(1)
      by (simp add: rfnl_body_def ks cs len(3) list_update_append)
    have ok': "node_ok t (Suc d) (length (keys n) - 1) ?n'"
      using shape(2) b'(2) bts(1,3,4) len by (simp add: node_ok_Suc ks ball_Un)
    have ino': "inorder ?n' = lefts cl kl @ inorder a @ ?p # inorder b' @ rights kr cr"
      using len inorder_from_split [of cl kl "b' # cr" "?p # kr" a] by simp
    have sub: "set (inorder b') \<subseteq> set (inorder b)" using b'(4) by (rule set_of_diff_mset)
    have "sorted ((lefts cl kl @ inorder a) @ ?p # inorder b' @ rights kr cr)"
      using sorted_succ [of "lefts cl kl @ inorder a" k "inorder b" "rights kr cr" "inorder b'"]
        sn b'(3) sub ine by simp
    then have so: "sorted (inorder ?n')" unfolding ino' by simp
    have "add_mset ?p (mset (inorder b')) = mset (inorder b)"
      using b'(4) pin by simp
    then have ms: "mset (inorder ?n') = mset (inorder n) - {#k#}"
      unfolding ino' ino_n by simp
    show ?thesis using res ok' so ms by (simp add: del_post_def k_def)
  next
    case both
    have ge: "t - 1 \<le> length (keys a)" "t - 1 \<le> length (keys b)"
      using ak bk by (simp_all add: node_ok_def)
    with both have sm: "length (keys a) = t - 1" "length (keys b) = t - 1" by simp_all
    have sum: "length (keys a) + length (keys b) + 1 \<le> 2 * t - 1" using sm t by simp
    note mp = merged_child_props [OF bts(1,2) sum]
    let ?M = "merged_child a k b"
    let ?n1 = "Node (kl @ kr) t (cl @ ?M # cr) False"
    have mg: "merge n idx = Some ?n1"
      using merge_app [OF len(1), of k kr t a b cr False] shape(1,3)
      by (simp add: len(3) ks cs) (metis ks cs node.collapse)
    have getM: "py_get (children ?n1) idx = Some ?M"
      using len(1) by (simp add: py_get_def len(3) nth_append)
    have Mk: "t \<le> length (keys ?M)" using mp(3) [of k] sm t by simp
    have sM: "sorted (inorder ?M)" using sn by (simp add: mp(2) sorted_append)
    have kin: "k \<in> set (inorder ?M)" by (simp add: mp(2))
    from del_okD [OF D mp(1) Mk sM kin] obtain M' where
      M': "D ?M k = Some M'" "bt t d M'" "sorted (inorder M')"
      "mset (inorder M') = mset (inorder ?M) - {#k#}" by blast
    let ?n' = "Node (kl @ kr) t (cl @ M' # cr) False"
    have res: "rfnl_body D n idx = Some ?n'"
      using get both mg getM M'(1) shape(1) len(1)
      by (simp add: rfnl_body_def k_def [symmetric] set_child_def set_children_def len(3)
          list_update_append)
    have ok': "node_ok t (Suc d) (length (keys n) - 1) ?n'"
      using shape(2) M'(2) bts(3,4) len by (simp add: node_ok_Suc ks ball_Un)
    have ino': "inorder ?n' = lefts cl kl @ inorder M' @ rights kr cr"
      using len inorder_from_split [of cl kl cr kr M'] by simp
    have sub: "set (inorder M') \<subseteq> set (inorder ?M)" using M'(4) by (rule set_of_diff_mset)
    have "sorted (lefts cl kl @ inorder ?M @ rights kr cr)" using sn by (simp add: mp(2))
    then have so: "sorted (inorder ?n')"
      unfolding ino' using M'(3) sub by (rule sorted_mid_subset)
    have "mset (inorder M') = mset (inorder a) + mset (inorder b)"
      using M'(4) by (simp add: mp(2))
    then have ms: "mset (inorder ?n') = mset (inorder n) - {#k#}"
      unfolding ino' ino_n by simp
    show ?thesis using res ok' so ms by (simp add: del_post_def k_def)
  qed
qed

subsection \<open>Descending into a child\<close>

lemma set_child_at:
  assumes "node_ok t (Suc d) lo n" "j \<le> length (keys n)"
  shows "inorder (set_child n j c) = lefts_at n j @ inorder c @ rights_at n j"
    and "bt t d c \<Longrightarrow> node_ok t (Suc d) lo (set_child n j c)"
proof -
  from assms(1) have shape: "\<not> is_leaf n" "length (children n) = length (keys n) + 1"
    "\<forall>c\<in>set (children n). bt t d c" by (simp_all add: node_ok_Suc)
  let ?n' = "set_child n j c"
  have sel: "keys ?n' = keys n" "children ?n' = (children n)[j := c]" "\<not> is_leaf ?n'"
    "min_degree ?n' = min_degree n"
    using shape(1) by (simp_all add: set_child_def set_children_def)
  have "inorder ?n' = lefts_at ?n' j @ inorder (children ?n' ! j) @ rights_at ?n' j"
    by (rule inorder_at) (use sel shape assms(2) in simp_all)
  moreover have "lefts_at ?n' j = lefts_at n j" "rights_at ?n' j = rights_at n j"
    by (simp_all add: lefts_at_def rights_at_def sel)
  moreover have "children ?n' ! j = c" using shape(2) assms(2) by (simp add: sel)
  ultimately show "inorder ?n' = lefts_at n j @ inorder c @ rights_at n j" by simp
  assume c: "bt t d c"
  have "\<forall>x\<in>set ((children n)[j := c]). bt t d x"
    using shape(3) c set_update_subset_insert [of "children n" j c] by blast
  then show "node_ok t (Suc d) lo ?n'"
    using assms(1) by (simp add: node_ok_Suc sel)
qed

lemma mset_mid_diff:
  assumes "k \<notin> set A" "k \<notin> set B" "mset C' = mset C - {#k#}"
  shows "mset (A @ C' @ B) = mset (A @ C @ B) - {#k#}"
proof (cases "k \<in> set C")
  case True
  then show ?thesis using assms(3) by simp
next
  case False
  then have "mset C' = mset C" using assms(3) by simp
  moreover have "k \<notin># mset (A @ C @ B)" using assms(1,2) False by simp
  ultimately show ?thesis by (simp add: diff_single_trivial)
qed

lemma descend_correct:
  assumes t: "2 \<le> t" and D: "del_ok t d strict D" and ok: "node_ok t (Suc d) lo n"
    and k1: "keys n \<noteq> []" and s: "sorted (inorder n)"
    and nf: "\<not> (get_key_index n key < length (keys n) \<and> keys n ! get_key_index n key = key)"
    and pres: "strict \<longrightarrow> key \<in> set (inorder n)"
  shows "\<exists>n'. descend_body D n key (get_key_index n key) = Some n' \<and>
           del_post t (Suc d) n key n'"
proof -
  let ?i = "get_key_index n key"
  from ok have shape: "min_degree n = t" "\<not> is_leaf n"
    "length (children n) = length (keys n) + 1" "\<forall>c\<in>set (children n). bt t d c"
    by (simp_all add: node_ok_Suc)
  note kp = key_position [OF ok s, of key]
  let ?c = "children n ! ?i"
  have get_c: "py_get (children n) ?i = Some ?c"
    using kp(1) shape(3) by (simp add: py_get_def)
  have "\<exists>n1. (if length (keys ?c) < min_degree n then fill n ?i else Some n) = Some n1 \<and>
          fill_post t d n ?i n1"
  proof (cases "length (keys ?c) < t")
    case True
    with fill_correct [OF t ok _ kp(1) True] k1 shape(1) show ?thesis
      by (cases "keys n") auto
  next
    case False
    have "node_ok t (Suc d) (length (keys n) - 1) n" using ok by (auto simp: node_ok_def)
    then have "fill_post t d n ?i n"
      using False kp(1) by (simp add: fill_post_def fill_target_def)
    with False shape(1) show ?thesis by simp
  qed
  then obtain n1 where f: "(if length (keys ?c) < min_degree n then fill n ?i else Some n) = Some n1"
    and fp: "fill_post t d n ?i n1" by blast
  let ?j = "fill_target n ?i n1"
  let ?cj = "children n1 ! ?j"
  from fp have ok1: "node_ok t (Suc d) (length (keys n) - 1) n1" and ino1: "inorder n1 = inorder n"
    and j: "?j \<le> length (keys n1)" and big: "t \<le> length (keys ?cj)"
    and subL: "set (lefts_at n1 ?j) \<subseteq> set (lefts_at n ?i)"
    and subR: "set (rights_at n1 ?j) \<subseteq> set (rights_at n ?i)"
    by (simp_all add: fill_post_def)
  from ok1 have shape1: "\<not> is_leaf n1" "length (children n1) = length (keys n1) + 1"
    "\<forall>c\<in>set (children n1). bt t d c" by (simp_all add: node_ok_Suc)
  have at1: "inorder n1 = lefts_at n1 ?j @ inorder ?cj @ rights_at n1 ?j"
    using shape1(1,2) j by (rule inorder_at)
  have notL: "key \<notin> set (lefts_at n1 ?j)" using subL kp(3) by auto
  have notR: "key \<notin> set (rights_at n1 ?j)" using subR kp(5) [OF nf] by auto
  have s1: "sorted (lefts_at n1 ?j @ inorder ?cj @ rights_at n1 ?j)"
    using s ino1 at1 by simp
  then have scj: "sorted (inorder ?cj)" by (simp add: sorted_append)
  have "?cj \<in> set (children n1)" using j shape1(2) by simp
  then have btcj: "bt t d ?cj" using shape1(3) by blast
  have get_cj: "py_get (children n1) ?j = Some ?cj"
    using j shape1(2) by (simp add: py_get_def)
  have "strict \<longrightarrow> key \<in> set (inorder ?cj)"
  proof
    assume strict
    with pres have "key \<in> set (lefts_at n1 ?j @ inorder ?cj @ rights_at n1 ?j)"
      using ino1 at1 by simp
    with notL notR show "key \<in> set (inorder ?cj)" by simp
  qed
  with D btcj big scj obtain cj' where cj': "D ?cj key = Some cj'" "del_post t d ?cj key cj'"
    unfolding del_ok_def by blast
  from cj'(2) big have btcj': "bt t d cj'"
    by (auto simp: del_post_def bt_node_ok intro: node_ok_mono)
  from cj'(2) have scj': "sorted (inorder cj')"
    and mcj': "mset (inorder cj') = mset (inorder ?cj) - {#key#}" by (simp_all add: del_post_def)
  let ?n' = "set_child n1 ?j cj'"
  have res: "descend_body D n key ?i = Some ?n'"
    using get_c f get_cj cj'(1) by (simp add: descend_body_def)
  note sc = set_child_at [OF ok1 j, of cj']
  have "set (inorder cj') \<subseteq> set (inorder ?cj)" using mcj' by (rule set_of_diff_mset)
  with s1 scj' have so: "sorted (inorder ?n')"
    unfolding sc(1) by (rule sorted_mid_subset)
  have "mset (inorder ?n') = mset (inorder n1) - {#key#}"
    unfolding sc(1) by (subst at1) (rule mset_mid_diff [OF notL notR mcj'])
  then have ms: "mset (inorder ?n') = mset (inorder n) - {#key#}" using ino1 by simp
  show ?thesis using res sc(2) [OF btcj'] so ms by (simp add: del_post_def)
qed

subsection \<open>The deletion routines of the two files\<close>

lemma leaf_absent:
  assumes "node_ok t 0 lo n" "sorted (inorder n)"
    "\<not> (get_key_index n key < length (keys n) \<and> keys n ! get_key_index n key = key)"
  shows "key \<notin> set (inorder n)"
proof -
  from assms(1,2) have "is_leaf n" "sorted (keys n)" by (simp_all add: node_ok_0 inorder_eq)
  with assms(3) bisect_found_iff [of "keys n" key] show ?thesis
    by (simp add: get_key_index_def inorder_eq)
qed

lemma main_node_delete_correct:
  assumes t: "2 \<le> t"
  shows "node_ok t d lo n \<Longrightarrow> d \<noteq> 0 \<longrightarrow> keys n \<noteq> [] \<Longrightarrow> sorted (inorder n) \<Longrightarrow>
     \<exists>n'. main_node_delete n key = Some n' \<and> del_post t d n key n'"
proof (induction d arbitrary: n lo key)
  case 0
  let ?i = "get_key_index n key"
  from "0.prems"(1) have leaf: "is_leaf n" by (simp add: node_ok_0)
  show ?case
  proof (cases "?i < length (keys n) \<and> keys n ! ?i = key")
    case True
    with delete_leaf_found [OF "0.prems"(1,3), of ?i] leaf show ?thesis
      by (subst main_node_delete_body) auto
  next
    case False
    from leaf_absent [OF "0.prems"(1,3) False]
    have "del_post t 0 n key n" by (rule delete_leaf_absent [OF "0.prems"(1,3)])
    with False leaf show ?thesis by (subst main_node_delete_body) auto
  qed
next
  case (Suc d)
  let ?i = "get_key_index n key"
  have D: "del_ok t d False main_node_delete"
    unfolding del_ok_def
  proof (intro allI impI)
    fix c k
    assume a: "bt t d c \<and> t \<le> length (keys c) \<and> sorted (inorder c) \<and>
        (False \<longrightarrow> k \<in> set (inorder c))"
    then have "node_ok t d (t - 1) c" "keys c \<noteq> []" using t by (auto simp: bt_node_ok)
    with a Suc.IH [of "t - 1" c k] show "\<exists>c'. main_node_delete c k = Some c' \<and> del_post t d c k c'"
      by simp
  qed
  from Suc.prems(1) have nl: "\<not> is_leaf n" by (simp add: node_ok_Suc)
  have ne: "keys n \<noteq> []" using Suc.prems(2) by simp
  show ?case
  proof (cases "?i < length (keys n) \<and> keys n ! ?i = key")
    case True
    with rfnl_correct [OF t D Suc.prems(1,3), of ?i] nl show ?thesis
      by (subst main_node_delete_body) auto
  next
    case False
    with descend_correct [OF t D Suc.prems(1) ne Suc.prems(3) False] nl show ?thesis
      by (subst main_node_delete_body) auto
  qed
qed

lemma delete_internal_correct:
  assumes t: "2 \<le> t"
  shows "node_ok t d lo n \<Longrightarrow> d \<noteq> 0 \<longrightarrow> keys n \<noteq> [] \<Longrightarrow> sorted (inorder n) \<Longrightarrow>
     key \<in> set (inorder n) \<Longrightarrow>
     \<exists>n'. delete_internal n key = Some n' \<and> del_post t d n key n'"
proof (induction d arbitrary: n lo key)
  case 0
  let ?i = "get_key_index n key"
  from "0.prems"(1) have leaf: "is_leaf n" by (simp add: node_ok_0)
  have found: "?i < length (keys n) \<and> keys n ! ?i = key"
    using leaf_absent [OF "0.prems"(1,3), of key] "0.prems"(4) by blast
  with delete_leaf_found [OF "0.prems"(1,3), of ?i] leaf show ?case
    by (subst delete_internal_body) auto
next
  case (Suc d)
  let ?i = "get_key_index n key"
  have D: "del_ok t d True delete_internal"
    unfolding del_ok_def
  proof (intro allI impI)
    fix c k
    assume a: "bt t d c \<and> t \<le> length (keys c) \<and> sorted (inorder c) \<and>
        (True \<longrightarrow> k \<in> set (inorder c))"
    then have "node_ok t d (t - 1) c" "keys c \<noteq> []" using t by (auto simp: bt_node_ok)
    with a Suc.IH [of "t - 1" c k] show "\<exists>c'. delete_internal c k = Some c' \<and> del_post t d c k c'"
      by simp
  qed
  from Suc.prems(1) have nl: "\<not> is_leaf n" by (simp add: node_ok_Suc)
  have ne: "keys n \<noteq> []" using Suc.prems(2) by simp
  show ?case
  proof (cases "?i < length (keys n) \<and> keys n ! ?i = key")
    case True
    with rfnl_correct [OF t D Suc.prems(1,3), of ?i] nl show ?thesis
      by (subst delete_internal_body) auto
  next
    case False
    with descend_correct [OF t D Suc.prems(1) ne Suc.prems(3) False] Suc.prems(4) nl
    show ?thesis by (subst delete_internal_body) auto
  qed
qed

lemma node_delete_correct:
  assumes "2 \<le> t" "node_ok t d lo n" "d \<noteq> 0 \<longrightarrow> keys n \<noteq> []" "sorted (inorder n)"
  shows "\<exists>n'. node_delete n key = Some n' \<and> del_post t d n key n' \<and>
           (key \<notin> set (inorder n) \<longrightarrow> n' = n)"
proof -
  from search_correct [OF assms, of key] obtain r where
    r: "search n key = Some r" "r \<noteq> None \<longleftrightarrow> key \<in> set (inorder n)" by blast
  show ?thesis
  proof (cases "key \<in> set (inorder n)")
    case True
    with delete_internal_correct [OF assms True] r show ?thesis
      by (auto simp: node_delete_def)
  next
    case False
    have "node_ok t d (length (keys n) - 1) n" using assms(2) by (auto simp: node_ok_def)
    then have "del_post t d n key n" using assms(4) False by (simp add: del_post_def)
    with False r show ?thesis by (simp add: node_delete_def)
  qed
qed

subsection \<open>\<^verbatim>\<open>BTree.delete\<close>\<close>

lemma shrink_root:
  assumes t: "2 \<le> t" and ok: "root_ok t d r" and post: "del_post t d r key r'"
  shows "\<exists>r'' d'. (if length (keys r') = 0 \<and> \<not> is_leaf r'
            then py_get (children r') 0 else Some r') = Some r'' \<and>
          root_ok t d' r'' \<and> inorder r'' = inorder r'"
proof (cases "length (keys r') = 0 \<and> \<not> is_leaf r'")
  case True
  from post have ok': "node_ok t d (length (keys r) - 1) r'" by (simp add: del_post_def)
  with True obtain d' where d: "d = Suc d'" by (cases d) (auto simp: node_ok_0)
  from ok' True have ch: "length (children r') = 1" "\<forall>c\<in>set (children r'). bt t d' c"
    by (simp_all add: d node_ok_Suc)
  then obtain c where c: "children r' = [c]" by (cases "children r'") auto
  with ch have "bt t d' c" by simp
  then have "root_ok t d' c" using t by (auto simp: bt_node_ok root_ok_def node_ok_def)
  moreover have "inorder c = inorder r'" using True c by (simp add: inorder_eq [of r'])
  ultimately show ?thesis using True c by (auto simp: py_get_def)
next
  case False
  from post have ok': "node_ok t d (length (keys r) - 1) r'" by (simp add: del_post_def)
  have "root_ok t d r'"
  proof (cases d)
    case 0
    with ok' show ?thesis by (auto simp: root_ok_def node_ok_def)
  next
    case (Suc d')
    with ok' False show ?thesis by (auto simp: root_ok_def node_ok_def Suc_le_eq)
  qed
  with False show ?thesis by auto
qed

lemma root_ok_nonempty: "root_ok t d r \<Longrightarrow> d \<noteq> 0 \<longrightarrow> keys r \<noteq> []"
  by (auto simp: root_ok_def node_ok_def)

lemma BTree_delete_correct:
  assumes "tree_ok T"
  shows "\<exists>T'. BTree_delete T key = Some T' \<and> tree_ok T' \<and>
           tree_min_degree T' = tree_min_degree T \<and>
           mset (inorder (root T')) = mset (inorder (root T)) - {#key#} \<and>
           (key \<notin> set (inorder (root T)) \<longrightarrow> T' = T)"
proof -
  let ?t = "tree_min_degree T"
  from assms obtain d where t: "2 \<le> ?t" and r: "root_ok ?t d (root T)"
    and s: "sorted (inorder (root T))" by (auto simp: tree_ok_def)
  from node_delete_correct [OF t r [unfolded root_ok_def] root_ok_nonempty [OF r] s, of key]
  obtain r' where r': "node_delete (root T) key = Some r'" "del_post ?t d (root T) key r'"
    "key \<notin> set (inorder (root T)) \<longrightarrow> r' = root T" by blast
  from shrink_root [OF t r r'(2)] obtain r'' d' where
    r'': "(if length (keys r') = 0 \<and> \<not> is_leaf r' then py_get (children r') 0 else Some r') = Some r''"
    "root_ok ?t d' r''" "inorder r'' = inorder r'" by blast
  have res: "BTree_delete T key = Some (T\<lparr>root := r''\<rparr>)"
    using r'(1) r''(1) by (auto simp: BTree_delete_def split: if_splits)
  have ok: "tree_ok (T\<lparr>root := r''\<rparr>)"
    using t r''(2,3) r'(2) by (auto simp: tree_ok_def del_post_def)
  have ms: "mset (inorder r'') = mset (inorder (root T)) - {#key#}"
    using r''(3) r'(2) by (simp add: del_post_def)
  have "key \<notin> set (inorder (root T)) \<longrightarrow> r'' = root T"
  proof
    assume "key \<notin> set (inorder (root T))"
    with r'(3) have e: "r' = root T" by simp
    have "\<not> (length (keys (root T)) = 0 \<and> \<not> is_leaf (root T))"
      using r by (cases d) (auto simp: root_ok_def node_ok_def)
    with r''(1) e show "r'' = root T" by (auto split: if_splits)
  qed
  then show ?thesis using res ok ms by auto
qed

lemma main_BTree_delete_correct:
  assumes "tree_ok T"
  shows "\<exists>T'. main_BTree_delete T key = Some T' \<and> tree_ok T' \<and>
           tree_min_degree T' = tree_min_degree T \<and>
           mset (inorder (root T')) = mset (inorder (root T)) - {#key#}"
proof -
  let ?t = "tree_min_degree T"
  from assms obtain d where t: "2 \<le> ?t" and r: "root_ok ?t d (root T)"
    and s: "sorted (inorder (root T))" by (auto simp: tree_ok_def)
  from main_node_delete_correct [OF t r [unfolded root_ok_def] root_ok_nonempty [OF r] s, of key]
  obtain r' where r': "main_node_delete (root T) key = Some r'" "del_post ?t d (root T) key r'"
    by blast
  from shrink_root [OF t r r'(2)] obtain r'' d' where
    r'': "(if length (keys r') = 0 \<and> \<not> is_leaf r' then py_get (children r') 0 else Some r') = Some r''"
    "root_ok ?t d' r''" "inorder r'' = inorder r'" by blast
  have res: "main_BTree_delete T key = Some (T\<lparr>root := r''\<rparr>)"
    using r'(1) r''(1) by (auto simp: main_BTree_delete_def split: if_splits)
  have ok: "tree_ok (T\<lparr>root := r''\<rparr>)"
    using t r''(2,3) r'(2) by (auto simp: tree_ok_def del_post_def)
  have ms: "mset (inorder r'') = mset (inorder (root T)) - {#key#}"
    using r''(3) r'(2) by (simp add: del_post_def)
  show ?thesis using res ok ms by auto
qed

section \<open>Sequences of operations\<close>

datatype op = Insert int | Delete int

text \<open>The package \<^verbatim>\<open>btree\<close>.\<close>

fun apply_op :: "btree \<Rightarrow> op \<Rightarrow> btree option" where
  "apply_op T (Insert k) = BTree_insert T k"
| "apply_op T (Delete k) = BTree_delete T k"

fun run :: "btree \<Rightarrow> op list \<Rightarrow> btree option" where
  "run T [] = Some T"
| "run T (x # xs) = (case apply_op T x of None \<Rightarrow> None | Some T' \<Rightarrow> run T' xs)"

text \<open>The file \<^verbatim>\<open>main.py\<close>.\<close>

fun main_apply_op :: "btree \<Rightarrow> op \<Rightarrow> btree option" where
  "main_apply_op T (Insert k) = main_BTree_insert T k"
| "main_apply_op T (Delete k) = main_BTree_delete T k"

fun main_run :: "btree \<Rightarrow> op list \<Rightarrow> btree option" where
  "main_run T [] = Some T"
| "main_run T (x # xs) = (case main_apply_op T x of None \<Rightarrow> None | Some T' \<Rightarrow> main_run T' xs)"

text \<open>
  The keys that are stored after a sequence of operations, as a sorted list with
  repetitions: an insertion adds one occurrence, a deletion removes one if there is one.
\<close>

fun stored :: "int list \<Rightarrow> op list \<Rightarrow> int list" where
  "stored S [] = S"
| "stored S (Insert k # xs) = stored (insort k S) xs"
| "stored S (Delete k # xs) = stored (remove1 k S) xs"

lemma sorted_mset_unique: "sorted xs \<Longrightarrow> sorted ys \<Longrightarrow> mset xs = mset ys \<Longrightarrow> xs = (ys :: int list)"
  using properties_for_sort [of xs ys] sorted_sort_id [of ys] by simp

lemma inorder_insort:
  fixes xs :: "int list"
  assumes "sorted xs" "sorted ys" "mset ys = add_mset k (mset xs)"
  shows "ys = insort k xs"
proof (rule sorted_mset_unique)
  show "sorted ys" by fact
  show "sorted (insort k xs)" using assms(1) by (simp add: sorted_insort)
  show "mset ys = mset (insort k xs)" using assms(3) by simp
qed

lemma inorder_remove1:
  fixes xs :: "int list"
  assumes "sorted xs" "sorted ys" "mset ys = mset xs - {#k#}"
  shows "ys = remove1 k xs"
proof (rule sorted_mset_unique)
  show "sorted ys" by fact
  show "sorted (remove1 k xs)" using assms(1) by (simp add: sorted_remove1)
  show "mset ys = mset (remove1 k xs)" using assms(3) by simp
qed

lemma sorted_stored: "sorted S \<Longrightarrow> sorted (stored S xs)"
  by (induction S xs rule: stored.induct) (simp_all add: sorted_insort sorted_remove1)

lemma stored_append: "stored S (xs @ ys) = stored (stored S xs) ys"
  by (induction S xs rule: stored.induct) simp_all

lemma mset_stored_inserts: "mset (stored S (map Insert ks)) = mset ks + mset S"
  by (induction ks arbitrary: S) simp_all

lemma stored_inserts: "stored [] (map Insert ks) = sort ks"
proof -
  have "sorted (stored [] (map Insert ks))" by (rule sorted_stored) simp
  moreover have "mset (stored [] (map Insert ks)) = mset (sort ks)"
    by (simp add: mset_stored_inserts)
  ultimately show ?thesis by (rule sorted_mset_unique [OF _ sorted_sort])
qed

lemma tree_ok_sorted: "tree_ok T \<Longrightarrow> sorted (inorder (root T))"
  by (simp add: tree_ok_def)

lemma apply_op_correct:
  assumes "tree_ok T"
  shows "\<exists>T'. apply_op T x = Some T' \<and> tree_ok T' \<and> tree_min_degree T' = tree_min_degree T \<and>
           inorder (root T') = stored (inorder (root T)) [x]"
proof (cases x)
  case (Insert k)
  from BTree_insert_correct [OF assms, of k] obtain T' where
    T': "BTree_insert T k = Some T'" "tree_ok T'" "tree_min_degree T' = tree_min_degree T"
    "mset (inorder (root T')) = add_mset k (mset (inorder (root T)))" by blast
  have "inorder (root T') = insort k (inorder (root T))"
    using tree_ok_sorted [OF assms] tree_ok_sorted [OF T'(2)] T'(4) by (rule inorder_insort)
  with T' Insert show ?thesis by simp
next
  case (Delete k)
  from BTree_delete_correct [OF assms, of k] obtain T' where
    T': "BTree_delete T k = Some T'" "tree_ok T'" "tree_min_degree T' = tree_min_degree T"
    "mset (inorder (root T')) = mset (inorder (root T)) - {#k#}" by blast
  have "inorder (root T') = remove1 k (inorder (root T))"
    using tree_ok_sorted [OF assms] tree_ok_sorted [OF T'(2)] T'(4) by (rule inorder_remove1)
  with T' Delete show ?thesis by simp
qed

lemma main_apply_op_correct:
  assumes "tree_ok T"
  shows "\<exists>T'. main_apply_op T x = Some T' \<and> tree_ok T' \<and>
           tree_min_degree T' = tree_min_degree T \<and>
           inorder (root T') = stored (inorder (root T)) [x]"
proof (cases x)
  case (Insert k)
  from BTree_insert_correct [OF assms, of k] obtain T' where
    T': "BTree_insert T k = Some T'" "tree_ok T'" "tree_min_degree T' = tree_min_degree T"
    "mset (inorder (root T')) = add_mset k (mset (inorder (root T)))" by blast
  have "inorder (root T') = insort k (inorder (root T))"
    using tree_ok_sorted [OF assms] tree_ok_sorted [OF T'(2)] T'(4) by (rule inorder_insort)
  with T' Insert show ?thesis by (simp add: main_BTree_insert_eq)
next
  case (Delete k)
  from main_BTree_delete_correct [OF assms, of k] obtain T' where
    T': "main_BTree_delete T k = Some T'" "tree_ok T'" "tree_min_degree T' = tree_min_degree T"
    "mset (inorder (root T')) = mset (inorder (root T)) - {#k#}" by blast
  have "inorder (root T') = remove1 k (inorder (root T))"
    using tree_ok_sorted [OF assms] tree_ok_sorted [OF T'(2)] T'(4) by (rule inorder_remove1)
  with T' Delete show ?thesis by simp
qed

lemma run_correct:
  "tree_ok T \<Longrightarrow> \<exists>T'. run T xs = Some T' \<and> tree_ok T' \<and>
      tree_min_degree T' = tree_min_degree T \<and> inorder (root T') = stored (inorder (root T)) xs"
proof (induction xs arbitrary: T)
  case Nil
  then show ?case by simp
next
  case (Cons x xs)
  from apply_op_correct [OF Cons.prems, of x] obtain T1 where
    T1: "apply_op T x = Some T1" "tree_ok T1" "tree_min_degree T1 = tree_min_degree T"
    "inorder (root T1) = stored (inorder (root T)) [x]" by blast
  from Cons.IH [OF T1(2)] T1 show ?case by (cases x) auto
qed

lemma main_run_correct:
  "tree_ok T \<Longrightarrow> \<exists>T'. main_run T xs = Some T' \<and> tree_ok T' \<and>
      tree_min_degree T' = tree_min_degree T \<and> inorder (root T') = stored (inorder (root T)) xs"
proof (induction xs arbitrary: T)
  case Nil
  then show ?case by simp
next
  case (Cons x xs)
  from main_apply_op_correct [OF Cons.prems, of x] obtain T1 where
    T1: "main_apply_op T x = Some T1" "tree_ok T1" "tree_min_degree T1 = tree_min_degree T"
    "inorder (root T1) = stored (inorder (root T)) [x]" by blast
  from Cons.IH [OF T1(2)] T1 show ?case by (cases x) auto
qed

text \<open>Every tree that the constructor and a sequence of operations produce.\<close>

lemma reachable:
  assumes "2 \<le> md"
  shows "\<exists>T0 T. BTree_init md = Inr T0 \<and> run T0 xs = Some T \<and> tree_ok T \<and>
           int (tree_min_degree T) = md \<and> inorder (root T) = stored [] xs"
proof -
  let ?T0 = "\<lparr>root = Node [] (nat md) [] True, tree_min_degree = nat md\<rparr>"
  have i: "BTree_init md = Inr ?T0" using assms by (simp add: BTree_init_def)
  from BTree_init_ok [OF assms i] have ok: "tree_ok ?T0" and e: "inorder (root ?T0) = []"
    by simp_all
  from run_correct [OF ok, of xs] e assms i show ?thesis by auto
qed

lemma main_reachable:
  assumes "2 \<le> md"
  shows "\<exists>T0 T. BTree_init md = Inr T0 \<and> main_run T0 xs = Some T \<and> tree_ok T \<and>
           int (tree_min_degree T) = md \<and> inorder (root T) = stored [] xs"
proof -
  let ?T0 = "\<lparr>root = Node [] (nat md) [] True, tree_min_degree = nat md\<rparr>"
  have i: "BTree_init md = Inr ?T0" using assms by (simp add: BTree_init_def)
  from BTree_init_ok [OF assms i] have ok: "tree_ok ?T0" and e: "inorder (root ?T0) = []"
    by simp_all
  from main_run_correct [OF ok, of xs] e assms i show ?thesis by auto
qed

lemma BTree_traverse_correct: "tree_ok T \<Longrightarrow> BTree_traverse T = Some (inorder (root T))"
  by (auto simp: tree_ok_def root_ok_def BTree_traverse_def intro: traverse_inorder)

lemma BTree_search_eq: "BTree_search T key = search (root T) key"
  by (simp add: BTree_search_def search.simps [of "root T"])

lemma BTree_search_correct:
  assumes "tree_ok T"
  shows "\<exists>r. BTree_search T key = Some r \<and> (r \<noteq> None \<longleftrightarrow> key \<in> set (inorder (root T)))"
proof -
  from assms obtain d where t: "2 \<le> tree_min_degree T"
    and r: "root_ok (tree_min_degree T) d (root T)" and s: "sorted (inorder (root T))"
    by (auto simp: tree_ok_def)
  from search_correct [OF t r [unfolded root_ok_def] root_ok_nonempty [OF r] s, of key]
  show ?thesis by (simp add: BTree_search_eq)
qed

section \<open>The class invariant as the specification words it\<close>

fun all_nodes :: "(node \<Rightarrow> bool) \<Rightarrow> node \<Rightarrow> bool" where
  "all_nodes P (Node ks t cs leaf) = (P (Node ks t cs leaf) \<and> (\<forall>c\<in>set cs. all_nodes P c))"

text \<open>Between \<open>t - 1\<close> and \<open>2t - 1\<close> keys.\<close>

definition key_count_ok :: "nat \<Rightarrow> node \<Rightarrow> bool" where
  "key_count_ok t m = (t - 1 \<le> length (keys m) \<and> length (keys m) \<le> 2 * t - 1)"

text \<open>An internal node with \<open>k\<close> keys has exactly \<open>k + 1\<close> children.\<close>

definition child_count_ok :: "node \<Rightarrow> bool" where
  "child_count_ok m = (\<not> is_leaf m \<longrightarrow> length (children m) = length (keys m) + 1)"

text \<open>The depth of every leaf below a node.\<close>

fun leaf_depths :: "node \<Rightarrow> nat list" where
  "leaf_depths (Node ks t cs leaf) =
     (if leaf then [0] else concat (map (\<lambda>c. map Suc (leaf_depths c)) cs))"

definition leaves_same_depth :: "node \<Rightarrow> bool" where
  "leaves_same_depth n = (\<forall>x\<in>set (leaf_depths n). \<forall>y\<in>set (leaf_depths n). x = y)"

text \<open>
  The part of the invariant about the shape: every node except the root has between
  \<open>t - 1\<close> and \<open>2t - 1\<close> keys, the root has at most \<open>2t - 1\<close>, every internal node with \<open>k\<close>
  keys has \<open>k + 1\<close> children, all leaves are at the same depth.
\<close>

definition structure_ok :: "btree \<Rightarrow> bool" where
  "structure_ok T =
     (length (keys (root T)) \<le> 2 * tree_min_degree T - 1 \<and>
      (\<forall>c\<in>set (children (root T)). all_nodes (key_count_ok (tree_min_degree T)) c) \<and>
      all_nodes child_count_ok (root T) \<and>
      leaves_same_depth (root T))"

text \<open>The keys within each node are strictly increasing; and the same without \<open>strictly\<close>.\<close>

definition keys_increasing :: "node \<Rightarrow> bool" where
  "keys_increasing r = all_nodes (\<lambda>m. sorted_wrt (<) (keys m)) r"

definition keys_nondecreasing :: "node \<Rightarrow> bool" where
  "keys_nondecreasing r = all_nodes (\<lambda>m. sorted_wrt (\<le>) (keys m)) r"

definition class_invariant :: "btree \<Rightarrow> bool" where
  "class_invariant T = (structure_ok T \<and> keys_increasing (root T))"

text \<open>No key is inserted while it is stored; \<open>S\<close> are the keys stored at the start.\<close>

fun fresh_inserts :: "int list \<Rightarrow> op list \<Rightarrow> bool" where
  "fresh_inserts S [] = True"
| "fresh_inserts S (Insert k # xs) = (k \<notin> set S \<and> fresh_inserts (insort k S) xs)"
| "fresh_inserts S (Delete k # xs) = fresh_inserts (remove1 k S) xs"

lemma all_nodes_eq: "all_nodes P n = (P n \<and> (\<forall>c\<in>set (children n). all_nodes P c))"
  by (cases n) simp

lemma leaf_depths_eq:
  "leaf_depths n = (if is_leaf n then [0] else concat (map (\<lambda>c. map Suc (leaf_depths c)) (children n)))"
  by (cases n) simp

lemma bt_all_nodes:
  "bt t d n \<Longrightarrow> all_nodes (key_count_ok t) n \<and> all_nodes child_count_ok n \<and>
     set (leaf_depths n) \<subseteq> {d}"
proof (induction d arbitrary: n)
  case 0
  then show ?case
    by (simp add: all_nodes_eq [of _ n] leaf_depths_eq [of n] key_count_ok_def [of t n]
        child_count_ok_def [of n])
next
  case (Suc d)
  then have c: "\<forall>c\<in>set (children n). all_nodes (key_count_ok t) c \<and> all_nodes child_count_ok c \<and>
     set (leaf_depths c) \<subseteq> {d}" by simp
  from Suc.prems c show ?case
    by (auto simp: all_nodes_eq [of _ n] leaf_depths_eq [of n] key_count_ok_def [of t n]
        child_count_ok_def [of n])
qed

lemma node_ok_structure:
  assumes "node_ok t d lo n"
  shows "length (keys n) \<le> 2 * t - 1" "\<forall>c\<in>set (children n). all_nodes (key_count_ok t) c"
    "all_nodes child_count_ok n" "leaves_same_depth n"
proof -
  show "length (keys n) \<le> 2 * t - 1" using assms by (simp add: node_ok_def)
  have c: "\<forall>c\<in>set (children n). all_nodes (key_count_ok t) c \<and> all_nodes child_count_ok c \<and>
     set (leaf_depths c) \<subseteq> {d - 1}"
    using assms bt_all_nodes by (cases d) (auto simp: node_ok_def)
  then show "\<forall>c\<in>set (children n). all_nodes (key_count_ok t) c" by simp
  show "all_nodes child_count_ok n"
    using assms c by (cases d; auto simp: all_nodes_eq [of _ n] node_ok_def child_count_ok_def [of n])
  have "set (leaf_depths n) \<subseteq> {d}"
    using assms c by (cases d; auto simp: leaf_depths_eq [of n] node_ok_def)
  then show "leaves_same_depth n" by (auto simp: leaves_same_depth_def)
qed

lemma tree_ok_structure: "tree_ok T \<Longrightarrow> structure_ok T"
  unfolding tree_ok_def root_ok_def structure_ok_def
  using node_ok_structure by blast

lemma sorted_wrt_inorder_from:
  "length cs = Suc (length ks) \<Longrightarrow> sorted_wrt R (inorder_from cs ks) \<Longrightarrow>
   sorted_wrt R ks \<and> (\<forall>c\<in>set cs. sorted_wrt R (inorder c))"
proof (induction ks arbitrary: cs)
  case Nil
  then obtain c where "cs = [c]" by (cases cs) auto
  with Nil show ?case by simp
next
  case (Cons k ks)
  then obtain c cs' where cs: "cs = c # cs'" "length cs' = Suc (length ks)" by (cases cs) auto
  with Cons.prems have s: "sorted_wrt R (inorder c)" "sorted_wrt R (k # inorder_from cs' ks)"
    by (simp_all add: sorted_wrt_append)
  then have "sorted_wrt R ks \<and> (\<forall>c\<in>set cs'. sorted_wrt R (inorder c))"
    using Cons.IH [OF cs(2)] by simp
  moreover have "\<forall>y\<in>set ks. R k y" using s(2) set_inorder_from_keys [OF cs(2)] by auto
  ultimately show ?case using s(1) cs(1) by simp
qed

lemma all_nodes_sorted_wrt:
  "node_ok t d lo n \<Longrightarrow> sorted_wrt R (inorder n) \<Longrightarrow> all_nodes (\<lambda>m. sorted_wrt R (keys m)) n"
proof (induction d arbitrary: n lo)
  case 0
  then show ?case by (simp add: all_nodes_eq [of _ n] node_ok_0 inorder_eq)
next
  case (Suc d)
  from Suc.prems(1) have shape: "\<not> is_leaf n" "length (children n) = Suc (length (keys n))"
    "\<forall>c\<in>set (children n). node_ok t d (t - 1) c" by (simp_all add: node_ok_Suc bt_node_ok)
  from sorted_wrt_inorder_from [OF shape(2), of R] Suc.prems(2) shape(1)
  have s: "sorted_wrt R (keys n)" "\<forall>c\<in>set (children n). sorted_wrt R (inorder c)"
    by (simp_all add: inorder_eq)
  with shape(3) Suc.IH have "\<forall>c\<in>set (children n). all_nodes (\<lambda>m. sorted_wrt R (keys m)) c"
    by blast
  with s(1) show ?case by (simp add: all_nodes_eq [of _ n])
qed

lemma tree_ok_nondecreasing: "tree_ok T \<Longrightarrow> keys_nondecreasing (root T)"
  unfolding tree_ok_def root_ok_def keys_nondecreasing_def
  using all_nodes_sorted_wrt [where R = "(\<le>)"] by blast

lemma tree_ok_increasing:
  "tree_ok T \<Longrightarrow> distinct (inorder (root T)) \<Longrightarrow> keys_increasing (root T)"
  unfolding tree_ok_def root_ok_def keys_increasing_def
  using all_nodes_sorted_wrt [where R = "(<)"] by (auto simp: strict_sorted_iff)

lemma distinct_stored: "distinct S \<Longrightarrow> fresh_inserts S xs \<Longrightarrow> distinct (stored S xs)"
  by (induction S xs rule: stored.induct) (simp_all add: distinct_insort)

section \<open>The observers as methods that return the state of the node\<close>

text \<open>
  \<^verbatim>\<open>search\<close> and \<^verbatim>\<open>traverse\<close> once more, modelled the way the mutating methods are: a
  call returns, next to its result, the state of \<^verbatim>\<open>self\<close> after the call, and the caller
  stores back the state of the child it has called.
\<close>

function search_st :: "node \<Rightarrow> int \<Rightarrow> (node option \<times> node) option" where
  "search_st n key =
     (if keys n = [] then Some (None, n)
      else let idx = get_key_index n key in
        if idx < length (keys n) \<and> keys n ! idx = key then Some (Some n, n)
        else if is_leaf n then Some (None, n)
        else do {
          c \<leftarrow> py_get (children n) idx;
          (r, c') \<leftarrow> search_st c key;
          Some (r, set_child n idx c')
        })"
  by pat_completeness auto
termination
  by (relation "measure (\<lambda>(n, key). size n)")
     (auto simp: py_get_def size_child_less split: if_splits)

declare search_st.simps [simp del]

fun traverse_st :: "node \<Rightarrow> (int list \<times> node) option"
  and traverse_from_st :: "node list \<Rightarrow> int list \<Rightarrow> (int list \<times> node list) option" where
  "traverse_st (Node ks t cs leaf) =
     (if leaf then Some (ks, Node ks t cs leaf)
      else do {
        (out, cs') \<leftarrow> traverse_from_st cs ks;
        Some (out, Node ks t cs' leaf)
      })"
| "traverse_from_st [] ks = None"
| "traverse_from_st (c # cs) [] = do {
     (out, c') \<leftarrow> traverse_st c;
     Some (out, c' # cs)
   }"
| "traverse_from_st (c # cs) (k # ks) = do {
     (out, c') \<leftarrow> traverse_st c;
     (rest, cs') \<leftarrow> traverse_from_st cs ks;
     Some (out @ k # rest, c' # cs')
   }"

lemma set_child_same: "i < length (children n) \<Longrightarrow> set_child n i (children n ! i) = n"
  by (cases n) (simp add: set_child_def set_children_def)

lemma search_st_pure: "search_st n key = map_option (\<lambda>r. (r, n)) (search n key)"
proof (induction n key rule: search.induct)
  case (1 n key)
  let ?i = "get_key_index n key"
  show ?case
  proof (cases "keys n \<noteq> [] \<and> \<not> (?i < length (keys n) \<and> keys n ! ?i = key) \<and> \<not> is_leaf n \<and>
      ?i < length (children n)")
    case True
    then have IH: "search_st (children n ! ?i) key =
        map_option (\<lambda>r. (r, children n ! ?i)) (search (children n ! ?i) key)"
      using "1.IH" [of ?i "children n ! ?i"] by (simp add: py_get_def)
    have "search_st n key = do {
        (r, c') \<leftarrow> search_st (children n ! ?i) key;
        Some (r, set_child n ?i c') }"
      using True by (subst search_st.simps) (auto simp: Let_def py_get_def)
    moreover have "search n key = search (children n ! ?i) key"
      using True by (subst search.simps) (auto simp: Let_def py_get_def)
    ultimately show ?thesis
      using True by (cases "search (children n ! ?i) key") (simp_all add: IH set_child_same)
  next
    case False
    have "search_st n key = (if keys n = [] then Some (None, n)
        else if ?i < length (keys n) \<and> keys n ! ?i = key then Some (Some n, n)
        else if is_leaf n then Some (None, n) else None)"
      using False by (subst search_st.simps) (auto simp: Let_def py_get_def)
    moreover have "search n key = (if keys n = [] then Some None
        else if ?i < length (keys n) \<and> keys n ! ?i = key then Some (Some n)
        else if is_leaf n then Some None else None)"
      using False by (subst search.simps) (auto simp: Let_def py_get_def)
    ultimately show ?thesis by simp
  qed
qed

lemma traverse_st_pure:
  "traverse_st n = map_option (\<lambda>out. (out, n)) (traverse n)"
  "traverse_from_st cs ks = map_option (\<lambda>out. (out, cs)) (traverse_from cs ks)"
proof (induction n and cs ks rule: traverse_traverse_from.induct)
  case (1 ks t cs leaf)
  then show ?case by (cases "traverse_from cs ks") auto
next
  case (2 ks)
  then show ?case by simp
next
  case (3 c cs)
  then show ?case by (cases "traverse c") auto
next
  case (4 c cs k ks)
  then show ?case by (cases "traverse c"; cases "traverse_from cs ks") auto
qed

section \<open>Facts shared by the claims\<close>

lemma main_BTree_search_eq: "main_BTree_search T key = BTree_search T key"
  by (simp add: main_BTree_search_def BTree_search_eq)

lemma init_reachable:
  assumes "BTree_init md = Inr T0" "run T0 ops = Some T"
  shows "2 \<le> md" "tree_ok T" "inorder (root T) = stored [] ops"
    "int (tree_min_degree T) = md"
proof -
  show md: "2 \<le> md" using assms(1) by (auto simp: BTree_init_def split: if_splits)
  from reachable [OF md, of ops] assms
  show "tree_ok T" "inorder (root T) = stored [] ops" "int (tree_min_degree T) = md"
    by auto
qed

lemma insert_non_full_keeps_keys:
  assumes "\<not> is_leaf n" "py_get (children n) (get_key_index n key) = Some c" "\<not> is_full c"
    "insert_non_full n key = Some n'"
  shows "keys n' = keys n \<and> length (children n') = length (children n) \<and> \<not> is_leaf n'"
proof -
  from assms(4) have "do { c' \<leftarrow> insert_non_full c key;
      Some (set_child n (get_key_index n key) c') } = Some n'"
    using assms(1,2,3) by (subst (asm) insert_non_full.simps) (simp add: Let_def)
  then show ?thesis using assms(1)
    by (auto simp: bind_eq_Some_conv set_child_def set_children_def)
qed

section \<open>Claims\<close>

text \<open>
  C1. For every sequence of insert and delete operations on a tree constructed with
  \<open>min_degree t \<ge> 2\<close>, every operation returns without error and afterwards: every node
  except the root has between \<open>t - 1\<close> and \<open>2t - 1\<close> keys, the root has between \<open>0\<close> and
  \<open>2t - 1\<close> keys, every internal node with \<open>k\<close> keys has exactly \<open>k + 1\<close> children, all leaves
  are at the same depth, and the keys within each node are in non-decreasing order. The
  keys are strictly increasing, so that the whole class invariant holds, if no key was
  inserted while it was stored. Without that condition strictness is lost: \<^verbatim>\<open>insert\<close> stores
  a key that is already there a second time, as the sequence insert 1, insert 1 with
  \<open>t = 2\<close> shows after the theorem.
\<close>

theorem C1_invariant:
  assumes "2 \<le> md"
  shows "\<exists>T0 T. BTree_init md = Inr T0 \<and> run T0 ops = Some T \<and> structure_ok T \<and>
           keys_nondecreasing (root T) \<and>
           (fresh_inserts [] ops \<longrightarrow> keys_increasing (root T) \<and> class_invariant T)"
proof -
  from reachable [OF assms, of ops] obtain T0 T where
    T: "BTree_init md = Inr T0" "run T0 ops = Some T" "tree_ok T"
    "inorder (root T) = stored [] ops" by blast
  have s: "structure_ok T" using T(3) by (rule tree_ok_structure)
  have n: "keys_nondecreasing (root T)" using T(3) by (rule tree_ok_nondecreasing)
  have "fresh_inserts [] ops \<longrightarrow> keys_increasing (root T)"
  proof
    assume "fresh_inserts [] ops"
    then have "distinct (stored [] ops)" using distinct_stored [of "[]" ops] by simp
    then show "keys_increasing (root T)" using T(3,4) tree_ok_increasing by simp
  qed
  with T(1,2) s n show ?thesis by (auto simp: class_invariant_def)
qed

theorem C1_invariant_witness:
  "2 \<le> (3::int) \<and>
   fresh_inserts [] [Insert 10, Insert 20, Insert 5, Insert 6, Insert 12, Insert 30, Insert 7,
      Insert 17, Delete 6, Delete 10] \<and>
   (\<exists>T0 T. BTree_init 3 = Inr T0 \<and>
      run T0 [Insert 10, Insert 20, Insert 5, Insert 6, Insert 12, Insert 30, Insert 7,
        Insert 17, Delete 6, Delete 10] = Some T \<and>
      structure_ok T \<and> keys_nondecreasing (root T) \<and> keys_increasing (root T) \<and>
      class_invariant T)"
proof -
  have h: "2 \<le> (3::int)" by simp
  have f: "fresh_inserts [] [Insert 10, Insert 20, Insert 5, Insert 6, Insert 12, Insert 30,
      Insert 7, Insert 17, Delete 6, Delete 10]" by code_simp
  from C1_invariant [OF h, of "[Insert 10, Insert 20, Insert 5, Insert 6, Insert 12, Insert 30,
      Insert 7, Insert 17, Delete 6, Delete 10]"] f h
  show ?thesis by blast
qed

theorem C1_counterexample:
  "BTree_init 2 = Inr \<lparr>root = Node [] 2 [] True, tree_min_degree = 2\<rparr> \<and>
   run \<lparr>root = Node [] 2 [] True, tree_min_degree = 2\<rparr> [Insert 1, Insert 1] =
     Some \<lparr>root = Node [1, 1] 2 [] True, tree_min_degree = 2\<rparr> \<and>
   \<not> class_invariant \<lparr>root = Node [1, 1] 2 [] True, tree_min_degree = 2\<rparr>"
proof (intro conjI)
  show "BTree_init 2 = Inr \<lparr>root = Node [] 2 [] True, tree_min_degree = 2\<rparr>"
    by (simp add: BTree_init_def)
  show "run \<lparr>root = Node [] 2 [] True, tree_min_degree = 2\<rparr> [Insert 1, Insert 1] =
     Some \<lparr>root = Node [1, 1] 2 [] True, tree_min_degree = 2\<rparr>"
    by code_simp
  show "\<not> class_invariant \<lparr>root = Node [1, 1] 2 [] True, tree_min_degree = 2\<rparr>"
    by (simp add: class_invariant_def keys_increasing_def)
qed

text \<open>
  C2. For every tree reached by a sequence of inserts and deletes, \<^verbatim>\<open>search(k)\<close> raises no
  error and reports present (a result other than \<^verbatim>\<open>None\<close>) exactly for the keys \<open>k\<close> that
  are stored, where an insertion stores one more occurrence of its key and a deletion
  removes one occurrence; in particular a key that was never inserted is reported absent.
  \<^verbatim>\<open>delete(k)\<close> followed by \<^verbatim>\<open>search(k)\<close> reports absent if \<open>k\<close> was stored at most once. A
  key stored twice is still found after one deletion, as the sequence insert 1, insert 1,
  delete 1 shows after the theorem.
\<close>

theorem C2_search:
  assumes "2 \<le> md"
  shows "\<exists>T0 T r. BTree_init md = Inr T0 \<and> run T0 ops = Some T \<and>
           BTree_search T k = Some r \<and> (r \<noteq> None \<longleftrightarrow> k \<in> set (stored [] ops)) \<and>
           (count_list (stored [] ops) k \<le> 1 \<longrightarrow>
              (\<exists>T'. BTree_delete T k = Some T' \<and> BTree_search T' k = Some None))"
proof -
  from reachable [OF assms, of ops] obtain T0 T where
    T: "BTree_init md = Inr T0" "run T0 ops = Some T" "tree_ok T"
    "inorder (root T) = stored [] ops" by blast
  from BTree_search_correct [OF T(3), of k] obtain r where
    r: "BTree_search T k = Some r" "r \<noteq> None \<longleftrightarrow> k \<in> set (inorder (root T))" by blast
  have "count_list (stored [] ops) k \<le> 1 \<longrightarrow>
      (\<exists>T'. BTree_delete T k = Some T' \<and> BTree_search T' k = Some None)"
  proof
    assume c: "count_list (stored [] ops) k \<le> 1"
    from BTree_delete_correct [OF T(3), of k] obtain T' where
      T': "BTree_delete T k = Some T'" "tree_ok T'"
      "mset (inorder (root T')) = mset (inorder (root T)) - {#k#}" by blast
    have "count (mset (inorder (root T'))) k = 0"
      using c by (simp add: T'(3) T(4) count_mset)
    then have "k \<notin> set (inorder (root T'))"
      by (simp add: count_mset count_list_0_iff)
    with BTree_search_correct [OF T'(2), of k] T'(1) show
      "\<exists>T'. BTree_delete T k = Some T' \<and> BTree_search T' k = Some None" by auto
  qed
  with T(1,2,4) r show ?thesis by auto
qed

theorem C2_search_witness:
  "2 \<le> (3::int) \<and>
   count_list (stored [] [Insert 10, Insert 20, Insert 5, Insert 6, Insert 12]) 6 \<le> 1 \<and>
   (\<exists>T0 T r. BTree_init 3 = Inr T0 \<and>
      run T0 [Insert 10, Insert 20, Insert 5, Insert 6, Insert 12] = Some T \<and>
      BTree_search T 6 = Some r \<and>
      (r \<noteq> None \<longleftrightarrow> 6 \<in> set (stored [] [Insert 10, Insert 20, Insert 5, Insert 6, Insert 12])) \<and>
      (\<exists>T'. BTree_delete T 6 = Some T' \<and> BTree_search T' 6 = Some None))"
proof -
  have h: "2 \<le> (3::int)" by simp
  have c: "count_list (stored [] [Insert 10, Insert 20, Insert 5, Insert 6, Insert 12]) 6 \<le> 1"
    by code_simp
  from C2_search [OF h, of "[Insert 10, Insert 20, Insert 5, Insert 6, Insert 12]" 6] c h
  show ?thesis by blast
qed

theorem C2_counterexample:
  "run \<lparr>root = Node [] 2 [] True, tree_min_degree = 2\<rparr> [Insert 1, Insert 1] =
     Some \<lparr>root = Node [1, 1] 2 [] True, tree_min_degree = 2\<rparr> \<and>
   BTree_delete \<lparr>root = Node [1, 1] 2 [] True, tree_min_degree = 2\<rparr> 1 =
     Some \<lparr>root = Node [1] 2 [] True, tree_min_degree = 2\<rparr> \<and>
   BTree_search \<lparr>root = Node [1] 2 [] True, tree_min_degree = 2\<rparr> 1 =
     Some (Some (Node [1] 2 [] True))"
proof (intro conjI)
  show "run \<lparr>root = Node [] 2 [] True, tree_min_degree = 2\<rparr> [Insert 1, Insert 1] =
     Some \<lparr>root = Node [1, 1] 2 [] True, tree_min_degree = 2\<rparr>"
    by code_simp
  show "BTree_delete \<lparr>root = Node [1, 1] 2 [] True, tree_min_degree = 2\<rparr> 1 =
     Some \<lparr>root = Node [1] 2 [] True, tree_min_degree = 2\<rparr>"
    by code_simp
  show "BTree_search \<lparr>root = Node [1] 2 [] True, tree_min_degree = 2\<rparr> 1 =
     Some (Some (Node [1] 2 [] True))"
    by code_simp
qed

text \<open>
  C3. For every sequence of inserts into a freshly constructed tree, \<^verbatim>\<open>traverse\<close> raises
  no error and emits the ascending sort of the inserted keys, each key as often as it was
  inserted; the sequence is strictly ascending if the inserted keys are pairwise distinct.
  A key inserted twice is emitted twice, so the output of insert 1, insert 1 is not
  strictly ascending, as shown after the theorem.
\<close>

theorem C3_traverse_sorted:
  assumes "2 \<le> md"
  shows "\<exists>T0 T. BTree_init md = Inr T0 \<and> run T0 (map Insert ks) = Some T \<and>
           BTree_traverse T = Some (sort ks) \<and>
           (distinct ks \<longrightarrow> sorted_wrt (<) (sort ks))"
proof -
  from reachable [OF assms, of "map Insert ks"] obtain T0 T where
    T: "BTree_init md = Inr T0" "run T0 (map Insert ks) = Some T" "tree_ok T"
    "inorder (root T) = stored [] (map Insert ks)" by blast
  have "BTree_traverse T = Some (sort ks)"
    using BTree_traverse_correct [OF T(3)] T(4) by (simp add: stored_inserts)
  moreover have "distinct ks \<longrightarrow> sorted_wrt (<) (sort ks)"
    by (simp add: strict_sorted_iff)
  ultimately show ?thesis using T(1,2) by blast
qed

theorem C3_traverse_sorted_witness:
  "2 \<le> (3::int) \<and> distinct [10, 20, 5, 6, 12, 30, 7, 17 :: int] \<and>
   (\<exists>T0 T. BTree_init 3 = Inr T0 \<and>
      run T0 (map Insert [10, 20, 5, 6, 12, 30, 7, 17]) = Some T \<and>
      BTree_traverse T = Some (sort [10, 20, 5, 6, 12, 30, 7, 17]) \<and>
      sorted_wrt (<) (sort [10, 20, 5, 6, 12, 30, 7, 17 :: int]))"
proof -
  have h: "2 \<le> (3::int)" by simp
  have d: "distinct [10, 20, 5, 6, 12, 30, 7, 17 :: int]" by simp
  from C3_traverse_sorted [OF h, of "[10, 20, 5, 6, 12, 30, 7, 17]"] d h
  show ?thesis by blast
qed

theorem C3_counterexample:
  "run \<lparr>root = Node [] 2 [] True, tree_min_degree = 2\<rparr> (map Insert [1, 1]) =
     Some \<lparr>root = Node [1, 1] 2 [] True, tree_min_degree = 2\<rparr> \<and>
   BTree_traverse \<lparr>root = Node [1, 1] 2 [] True, tree_min_degree = 2\<rparr> = Some [1, 1] \<and>
   \<not> sorted_wrt (<) [1, 1 :: int]"
proof (intro conjI)
  show "run \<lparr>root = Node [] 2 [] True, tree_min_degree = 2\<rparr> (map Insert [1, 1]) =
     Some \<lparr>root = Node [1, 1] 2 [] True, tree_min_degree = 2\<rparr>"
    by code_simp
  show "BTree_traverse \<lparr>root = Node [1, 1] 2 [] True, tree_min_degree = 2\<rparr> = Some [1, 1]"
    by code_simp
  show "\<not> sorted_wrt (<) [1, 1 :: int]" by simp
qed

text \<open>
  C4. For every tree reached by inserts and deletes and every key \<open>k\<close> that is not stored:
  in the package \<^verbatim>\<open>btree\<close>, \<^verbatim>\<open>delete(k)\<close> raises no error and leaves the tree exactly as it
  was; in \<^verbatim>\<open>main.py\<close>, \<^verbatim>\<open>delete(k)\<close> raises no error and leaves the traversal and the
  answer of every search as they were. The nodes themselves need not stay as they were in
  \<^verbatim>\<open>main.py\<close>: its \<^verbatim>\<open>delete\<close> does not search first, and fills the children it descends
  into; deleting 0 after inserting 1, 2, 3, 4 with \<open>t = 2\<close> moves a key between the two
  leaves, as shown after the theorem.
\<close>

theorem C4_delete_absent:
  assumes "2 \<le> md" "k \<notin> set (stored [] ops)"
  shows "\<exists>T0 T Tm Tm'. BTree_init md = Inr T0 \<and>
           run T0 ops = Some T \<and> BTree_delete T k = Some T \<and>
           main_run T0 ops = Some Tm \<and> main_BTree_delete Tm k = Some Tm' \<and>
           main_BTree_traverse Tm = Some (stored [] ops) \<and>
           main_BTree_traverse Tm' = Some (stored [] ops) \<and>
           (\<forall>q. \<exists>r r'. main_BTree_search Tm q = Some r \<and> main_BTree_search Tm' q = Some r' \<and>
                  (r = None \<longleftrightarrow> r' = None))"
proof -
  from reachable [OF assms(1), of ops] obtain T0 T where
    T: "BTree_init md = Inr T0" "run T0 ops = Some T" "tree_ok T"
    "inorder (root T) = stored [] ops" by blast
  from main_reachable [OF assms(1), of ops] T(1) obtain Tm where
    Tm: "main_run T0 ops = Some Tm" "tree_ok Tm" "inorder (root Tm) = stored [] ops" by auto
  from BTree_delete_correct [OF T(3), of k] assms(2) T(4)
  have del: "BTree_delete T k = Some T" by auto
  from main_BTree_delete_correct [OF Tm(2), of k] obtain Tm' where
    Tm': "main_BTree_delete Tm k = Some Tm'" "tree_ok Tm'"
    "mset (inorder (root Tm')) = mset (inorder (root Tm)) - {#k#}" by blast
  have "mset (inorder (root Tm')) = mset (inorder (root Tm))"
    using Tm'(3) assms(2) Tm(3) by simp
  then have ino: "inorder (root Tm') = inorder (root Tm)"
    using tree_ok_sorted [OF Tm'(2)] tree_ok_sorted [OF Tm(2)] sorted_mset_unique by blast
  have tr: "main_BTree_traverse Tm = Some (stored [] ops)"
    "main_BTree_traverse Tm' = Some (stored [] ops)"
    using BTree_traverse_correct [OF Tm(2)] BTree_traverse_correct [OF Tm'(2)] ino Tm(3)
    by (simp_all add: main_BTree_traverse_def BTree_traverse_def)
  have "\<forall>q. \<exists>r r'. main_BTree_search Tm q = Some r \<and> main_BTree_search Tm' q = Some r' \<and>
                  (r = None \<longleftrightarrow> r' = None)"
  proof
    fix q
    from BTree_search_correct [OF Tm(2), of q] BTree_search_correct [OF Tm'(2), of q] ino
    show "\<exists>r r'. main_BTree_search Tm q = Some r \<and> main_BTree_search Tm' q = Some r' \<and>
                  (r = None \<longleftrightarrow> r' = None)"
      by (auto simp: main_BTree_search_eq)
  qed
  with T(1,2) del Tm(1) Tm'(1) tr show ?thesis by blast
qed

theorem C4_delete_absent_witness:
  "2 \<le> (2::int) \<and> 0 \<notin> set (stored [] [Insert 1, Insert 2, Insert 3, Insert 4]) \<and>
   (\<exists>T0 T Tm Tm'. BTree_init 2 = Inr T0 \<and>
      run T0 [Insert 1, Insert 2, Insert 3, Insert 4] = Some T \<and> BTree_delete T 0 = Some T \<and>
      main_run T0 [Insert 1, Insert 2, Insert 3, Insert 4] = Some Tm \<and>
      main_BTree_delete Tm 0 = Some Tm' \<and>
      main_BTree_traverse Tm = Some (stored [] [Insert 1, Insert 2, Insert 3, Insert 4]) \<and>
      main_BTree_traverse Tm' = Some (stored [] [Insert 1, Insert 2, Insert 3, Insert 4]) \<and>
      (\<forall>q. \<exists>r r'. main_BTree_search Tm q = Some r \<and> main_BTree_search Tm' q = Some r' \<and>
             (r = None \<longleftrightarrow> r' = None)))"
proof -
  have h: "2 \<le> (2::int)" by simp
  have a: "0 \<notin> set (stored [] [Insert 1, Insert 2, Insert 3, Insert 4])" by simp
  from C4_delete_absent [OF h a] h a show ?thesis by blast
qed

theorem C4_counterexample:
  "main_run \<lparr>root = Node [] 2 [] True, tree_min_degree = 2\<rparr>
      [Insert 1, Insert 2, Insert 3, Insert 4] =
     Some \<lparr>root = Node [2] 2 [Node [1] 2 [] True, Node [3, 4] 2 [] True] False,
           tree_min_degree = 2\<rparr> \<and>
   main_BTree_delete \<lparr>root = Node [2] 2 [Node [1] 2 [] True, Node [3, 4] 2 [] True] False,
           tree_min_degree = 2\<rparr> 0 =
     Some \<lparr>root = Node [3] 2 [Node [1, 2] 2 [] True, Node [4] 2 [] True] False,
           tree_min_degree = 2\<rparr> \<and>
   \<lparr>root = Node [3] 2 [Node [1, 2] 2 [] True, Node [4] 2 [] True] False, tree_min_degree = 2\<rparr>
     \<noteq> \<lparr>root = Node [2] 2 [Node [1] 2 [] True, Node [3, 4] 2 [] True] False,
           tree_min_degree = 2\<rparr>"
proof (intro conjI)
  show "main_run \<lparr>root = Node [] 2 [] True, tree_min_degree = 2\<rparr>
      [Insert 1, Insert 2, Insert 3, Insert 4] =
     Some \<lparr>root = Node [2] 2 [Node [1] 2 [] True, Node [3, 4] 2 [] True] False,
           tree_min_degree = 2\<rparr>"
    by code_simp
  show "main_BTree_delete \<lparr>root = Node [2] 2 [Node [1] 2 [] True, Node [3, 4] 2 [] True] False,
           tree_min_degree = 2\<rparr> 0 =
     Some \<lparr>root = Node [3] 2 [Node [1, 2] 2 [] True, Node [4] 2 [] True] False,
           tree_min_degree = 2\<rparr>"
    by code_simp
  show "\<lparr>root = Node [3] 2 [Node [1, 2] 2 [] True, Node [4] 2 [] True] False, tree_min_degree = 2\<rparr>
     \<noteq> \<lparr>root = Node [2] 2 [Node [1] 2 [] True, Node [3, 4] 2 [] True] False,
           tree_min_degree = 2\<rparr>"
    by simp
qed

text \<open>
  C5. Inserting a key \<open>k\<close> that is already present duplicates it. At a leaf,
  \<^verbatim>\<open>insert_non_full\<close> inserts the key at \<^verbatim>\<open>get_key_index(k)\<close> unconditionally, and on sorted
  keys that index is the leftmost position whose key is \<open>\<ge> k\<close>. On every tree reached by
  inserts and deletes, \<^verbatim>\<open>insert(k)\<close> raises no error and afterwards the traversal holds \<open>k\<close>
  once more than before, so at least twice if \<open>k\<close> was present.
\<close>

theorem C5_insert_duplicates:
  assumes "2 \<le> md"
  shows "(is_leaf n \<longrightarrow>
            insert_non_full n k = Some (set_keys n (py_insert (get_key_index n k) k (keys n)))) \<and>
         (sorted (keys n) \<longrightarrow> get_key_index n k \<le> length (keys n) \<and>
            (\<forall>y\<in>set (take (get_key_index n k) (keys n)). y < k) \<and>
            (\<forall>y\<in>set (drop (get_key_index n k) (keys n)). k \<le> y)) \<and>
         (\<exists>T0 T T'. BTree_init md = Inr T0 \<and> run T0 ops = Some T \<and>
            BTree_traverse T = Some (stored [] ops) \<and>
            BTree_insert T k = Some T' \<and>
            BTree_traverse T' = Some (insort k (stored [] ops)) \<and>
            count_list (insort k (stored [] ops)) k = count_list (stored [] ops) k + 1 \<and>
            (k \<in> set (stored [] ops) \<longrightarrow> 2 \<le> count_list (insort k (stored [] ops)) k))"
proof (intro conjI)
  show "is_leaf n \<longrightarrow>
      insert_non_full n k = Some (set_keys n (py_insert (get_key_index n k) k (keys n)))"
    by (subst insert_non_full.simps) simp
  show "sorted (keys n) \<longrightarrow> get_key_index n k \<le> length (keys n) \<and>
            (\<forall>y\<in>set (take (get_key_index n k) (keys n)). y < k) \<and>
            (\<forall>y\<in>set (drop (get_key_index n k) (keys n)). k \<le> y)"
    using bisect_left_sorted [of "keys n" k] by (simp add: get_key_index_def)
  from reachable [OF assms, of "ops @ [Insert k]"] obtain T0 T' where
    T': "BTree_init md = Inr T0" "run T0 (ops @ [Insert k]) = Some T'" "tree_ok T'"
    "inorder (root T') = stored [] (ops @ [Insert k])" by blast
  from reachable [OF assms, of ops] T'(1) obtain T where
    T: "run T0 ops = Some T" "tree_ok T" "inorder (root T) = stored [] ops" by auto
  have run_app: "\<And>A xs ys. run A (xs @ ys) = (case run A xs of None \<Rightarrow> None | Some B \<Rightarrow> run B ys)"
  proof -
    fix A xs ys show "run A (xs @ ys) = (case run A xs of None \<Rightarrow> None | Some B \<Rightarrow> run B ys)"
      by (induction xs arbitrary: A) (auto split: option.splits)
  qed
  have ins: "BTree_insert T k = Some T'"
    using T'(2) T(1) by (simp add: run_app split: option.splits)
  have c: "count_list (insort k (stored [] ops)) k = count_list (stored [] ops) k + 1"
    using count_mset [of "insort k (stored [] ops)" k] count_mset [of "stored [] ops" k]
    by simp
  have "k \<in> set (stored [] ops) \<longrightarrow> 2 \<le> count_list (insort k (stored [] ops)) k"
    using c count_list_0_iff [of "stored [] ops" k] by auto
  with T'(1) T ins c BTree_traverse_correct [OF T(2)] BTree_traverse_correct [OF T'(3)] T'(4)
  show "\<exists>T0 T T'. BTree_init md = Inr T0 \<and> run T0 ops = Some T \<and>
            BTree_traverse T = Some (stored [] ops) \<and>
            BTree_insert T k = Some T' \<and>
            BTree_traverse T' = Some (insort k (stored [] ops)) \<and>
            count_list (insort k (stored [] ops)) k = count_list (stored [] ops) k + 1 \<and>
            (k \<in> set (stored [] ops) \<longrightarrow> 2 \<le> count_list (insort k (stored [] ops)) k)"
    by (auto simp: stored_append)
qed

theorem C5_insert_duplicates_witness:
  "2 \<le> (2::int) \<and> is_leaf (Node [1, 3] 2 [] True) \<and> sorted (keys (Node [1, 3] 2 [] True)) \<and>
   3 \<in> set (stored [] [Insert 1, Insert 3]) \<and>
   insert_non_full (Node [1, 3] 2 [] True) 3 =
     Some (set_keys (Node [1, 3] 2 [] True)
       (py_insert (get_key_index (Node [1, 3] 2 [] True) 3) 3 (keys (Node [1, 3] 2 [] True)))) \<and>
   (\<exists>T0 T T'. BTree_init 2 = Inr T0 \<and> run T0 [Insert 1, Insert 3] = Some T \<and>
      BTree_traverse T = Some (stored [] [Insert 1, Insert 3]) \<and>
      BTree_insert T 3 = Some T' \<and>
      BTree_traverse T' = Some (insort 3 (stored [] [Insert 1, Insert 3])) \<and>
      2 \<le> count_list (insort 3 (stored [] [Insert 1, Insert 3])) 3)"
proof -
  have h: "2 \<le> (2::int)" by simp
  have l: "is_leaf (Node [1, 3] 2 [] True)" "sorted (keys (Node [1, 3] 2 [] True))"
    "3 \<in> set (stored [] [Insert 1, Insert 3])" by simp_all
  from C5_insert_duplicates [OF h, of "Node [1, 3] 2 [] True" 3 "[Insert 1, Insert 3]"] l h
  show ?thesis by blast
qed

text \<open>
  C6. When \<^verbatim>\<open>insert(key)\<close> is called on a tree whose root is full (it holds exactly
  \<open>2t - 1\<close> keys), the root is split first: the split makes a new internal root with exactly
  one key and two children that hold exactly \<open>t - 1\<close> keys each; the key is then inserted
  below this root, which is the root of the tree afterwards, internal, with one key and
  two children. For \<open>t = 2\<close>, inserting 1, 2, 3, 4 into a fresh tree gives the root \<open>[2]\<close>
  with the children \<open>[1]\<close> and \<open>[3, 4]\<close>, and \<^verbatim>\<open>traverse\<close> gives 1 2 3 4.
\<close>

theorem C6_root_split:
  "(BTree_init md = Inr T0 \<and> run T0 ops = Some T \<and>
      length (keys (root T)) = 2 * tree_min_degree T - 1 \<longrightarrow>
    is_full (root T) \<and>
    (\<exists>m c1 c2 T'.
       split_child (Node [] (tree_min_degree T) [root T] False) 0 =
         Some (Node [m] (tree_min_degree T) [c1, c2] False) \<and>
       length (keys c1) = tree_min_degree T - 1 \<and> length (keys c2) = tree_min_degree T - 1 \<and>
       BTree_insert T key = Some T' \<and> \<not> is_leaf (root T') \<and> keys (root T') = [m] \<and>
       length (children (root T')) = 2)) \<and>
   BTree_init 2 = Inr \<lparr>root = Node [] 2 [] True, tree_min_degree = 2\<rparr> \<and>
   run \<lparr>root = Node [] 2 [] True, tree_min_degree = 2\<rparr>
       [Insert 1, Insert 2, Insert 3, Insert 4] =
     Some \<lparr>root = Node [2] 2 [Node [1] 2 [] True, Node [3, 4] 2 [] True] False,
           tree_min_degree = 2\<rparr> \<and>
   BTree_traverse \<lparr>root = Node [2] 2 [Node [1] 2 [] True, Node [3, 4] 2 [] True] False,
           tree_min_degree = 2\<rparr> = Some [1, 2, 3, 4]"
proof (intro conjI impI)
  show "BTree_init 2 = Inr \<lparr>root = Node [] 2 [] True, tree_min_degree = 2\<rparr>"
    by (simp add: BTree_init_def)
  show "run \<lparr>root = Node [] 2 [] True, tree_min_degree = 2\<rparr>
       [Insert 1, Insert 2, Insert 3, Insert 4] =
     Some \<lparr>root = Node [2] 2 [Node [1] 2 [] True, Node [3, 4] 2 [] True] False,
           tree_min_degree = 2\<rparr>"
    by code_simp
  show "BTree_traverse \<lparr>root = Node [2] 2 [Node [1] 2 [] True, Node [3, 4] 2 [] True] False,
           tree_min_degree = 2\<rparr> = Some [1, 2, 3, 4]"
    by code_simp
next
  assume a: "BTree_init md = Inr T0 \<and> run T0 ops = Some T \<and>
      length (keys (root T)) = 2 * tree_min_degree T - 1"
  let ?t = "tree_min_degree T"
  note ir = init_reachable [of md T0 ops T]
  from a ir have ok: "tree_ok T" by blast
  from a have full: "length (keys (root T)) = 2 * ?t - 1" by simp
  from ok obtain d where t: "2 \<le> ?t" and r: "root_ok ?t d (root T)"
    and s: "sorted (inorder (root T))" by (auto simp: tree_ok_def)
  have md: "min_degree (root T) = ?t" using r by (simp add: root_ok_def node_ok_def)
  show isf: "is_full (root T)" using full md t by (auto simp: is_full_def)
  let ?m = "keys (root T) ! (?t - 1)"
  let ?c1 = "existing_child_cut ?t (root T)" and ?c2 = "new_child ?t (root T)"
  let ?r1 = "Node [?m] ?t [?c1, ?c2] False"
  note sr = split_root [OF r [unfolded root_ok_def] full t]
  have bt: "bt ?t d (root T)"
    using r full t by (auto simp: root_ok_def bt_node_ok node_ok_def)
  have t1: "1 \<le> ?t" using t by simp
  note hv = split_halves_bt [OF bt full t1]
  have lt: "length (keys ?r1) < 2 * ?t - 1" using t by simp
  have s1: "sorted (inorder ?r1)" unfolding sr(3) by (rule s)
  from insert_non_full_correct [OF t sr(2) lt s1, of key]
  obtain r' where r': "insert_non_full ?r1 key = Some r'" by blast
  have ins: "BTree_insert T key = Some (T\<lparr>root := r'\<rparr>)"
    using isf sr(1) r' by (simp add: BTree_insert_def)
  let ?i = "get_key_index ?r1 key"
  have i: "?i \<le> 1" using bisect_left_sorted(1) [of "[?m]" key] by (simp add: get_key_index_def)
  then have get: "py_get (children ?r1) ?i = Some ([?c1, ?c2] ! ?i)"
    by (simp add: py_get_def)
  have c12: "[?c1, ?c2] ! ?i = ?c1 \<or> [?c1, ?c2] ! ?i = ?c2"
    using i by (cases "?i") auto
  have mdc: "min_degree ?c1 = ?t" "min_degree ?c2 = ?t"
    using hv(1,2) by (cases d; simp)+
  have nf: "\<not> is_full ([?c1, ?c2] ! ?i)"
    using c12 hv(3,4) mdc t by (auto simp: is_full_def)
  from insert_non_full_keeps_keys [OF _ get nf r']
  have "keys r' = [?m] \<and> length (children r') = 2 \<and> \<not> is_leaf r'" by simp
  with sr(1) hv(3,4) ins show "\<exists>m c1 c2 T'.
       split_child (Node [] ?t [root T] False) 0 = Some (Node [m] ?t [c1, c2] False) \<and>
       length (keys c1) = ?t - 1 \<and> length (keys c2) = ?t - 1 \<and>
       BTree_insert T key = Some T' \<and> \<not> is_leaf (root T') \<and> keys (root T') = [m] \<and>
       length (children (root T')) = 2"
    by (intro exI [of _ ?m] exI [of _ ?c1] exI [of _ ?c2] exI [of _ "T\<lparr>root := r'\<rparr>"]) simp
qed

theorem C6_root_split_witness:
  "BTree_init 2 = Inr \<lparr>root = Node [] 2 [] True, tree_min_degree = 2\<rparr> \<and>
   run \<lparr>root = Node [] 2 [] True, tree_min_degree = 2\<rparr> [Insert 1, Insert 2, Insert 3] =
     Some \<lparr>root = Node [1, 2, 3] 2 [] True, tree_min_degree = 2\<rparr> \<and>
   length (keys (root \<lparr>root = Node [1, 2, 3] 2 [] True, tree_min_degree = 2\<rparr>)) =
     2 * tree_min_degree \<lparr>root = Node [1, 2, 3] 2 [] True, tree_min_degree = 2\<rparr> - 1 \<and>
   is_full (root \<lparr>root = Node [1, 2, 3] 2 [] True, tree_min_degree = 2\<rparr>) \<and>
   (\<exists>m c1 c2 T'.
       split_child (Node [] 2 [Node [1, 2, 3] 2 [] True] False) 0 =
         Some (Node [m] 2 [c1, c2] False) \<and>
       length (keys c1) = 1 \<and> length (keys c2) = 1 \<and>
       BTree_insert \<lparr>root = Node [1, 2, 3] 2 [] True, tree_min_degree = 2\<rparr> 4 = Some T' \<and>
       \<not> is_leaf (root T') \<and> keys (root T') = [m] \<and> length (children (root T')) = 2)"
proof -
  have a: "BTree_init 2 = Inr \<lparr>root = Node [] 2 [] True, tree_min_degree = 2\<rparr>"
    by (simp add: BTree_init_def)
  have b: "run \<lparr>root = Node [] 2 [] True, tree_min_degree = 2\<rparr> [Insert 1, Insert 2, Insert 3] =
     Some \<lparr>root = Node [1, 2, 3] 2 [] True, tree_min_degree = 2\<rparr>"
    by code_simp
  have c: "length (keys (root \<lparr>root = Node [1, 2, 3] 2 [] True, tree_min_degree = 2\<rparr>)) =
     2 * tree_min_degree \<lparr>root = Node [1, 2, 3] 2 [] True, tree_min_degree = 2\<rparr> - 1"
    by simp
  from C6_root_split [of 2 "\<lparr>root = Node [] 2 [] True, tree_min_degree = 2\<rparr>"
      "[Insert 1, Insert 2, Insert 3]" "\<lparr>root = Node [1, 2, 3] 2 [] True, tree_min_degree = 2\<rparr>" 4]
    a b c
  show ?thesis by simp
qed

text \<open>
  C7. Constructing a tree raises \<^verbatim>\<open>ValueError\<close> if and only if \<open>min_degree < 2\<close>; when
  \<open>min_degree \<ge> 2\<close> the construction succeeds and the root of the new tree is a leaf with
  no keys and no children.
\<close>

theorem C7_constructor:
  "(BTree_init md = Inl ValueError \<longleftrightarrow> md < 2) \<and>
   (2 \<le> md \<longrightarrow> (\<exists>T. BTree_init md = Inr T \<and> is_leaf (root T) \<and> keys (root T) = [] \<and>
        children (root T) = [] \<and> int (tree_min_degree T) = md \<and>
        int (min_degree (root T)) = md))"
  by (simp add: BTree_init_def)

theorem C7_constructor_witness:
  "(BTree_init 1 = Inl ValueError \<longleftrightarrow> (1::int) < 2) \<and>
   (BTree_init 3 = Inl ValueError \<longleftrightarrow> (3::int) < 2) \<and>
   (2 \<le> (3::int) \<and> (\<exists>T. BTree_init 3 = Inr T \<and> is_leaf (root T) \<and> keys (root T) = [] \<and>
        children (root T) = [] \<and> int (tree_min_degree T) = 3 \<and>
        int (min_degree (root T)) = 3))"
  using C7_constructor [of 1] C7_constructor [of 3] by simp

text \<open>
  C8. For every tree reached by inserts and deletes and every key \<open>k\<close> that is stored at
  most once, calling \<^verbatim>\<open>delete(k)\<close> twice in a row raises no error and the second call is a
  no-op: it returns the tree that the first call left, so the traversal and all search
  results are those after one call. For a key stored twice the second call removes the
  second occurrence, as the sequence insert 1, insert 1, delete 1, delete 1 shows after
  the theorem.
\<close>

theorem C8_delete_twice:
  assumes "2 \<le> md" "count_list (stored [] ops) k \<le> 1"
  shows "\<exists>T0 T T1. BTree_init md = Inr T0 \<and> run T0 ops = Some T \<and>
           BTree_delete T k = Some T1 \<and> BTree_delete T1 k = Some T1 \<and>
           BTree_traverse T1 = Some (remove1 k (stored [] ops))"
proof -
  from reachable [OF assms(1), of ops] obtain T0 T where
    T: "BTree_init md = Inr T0" "run T0 ops = Some T" "tree_ok T"
    "inorder (root T) = stored [] ops" by blast
  from BTree_delete_correct [OF T(3), of k] obtain T1 where
    T1: "BTree_delete T k = Some T1" "tree_ok T1"
    "mset (inorder (root T1)) = mset (inorder (root T)) - {#k#}" by blast
  have "count (mset (inorder (root T1))) k = 0"
    using assms(2) by (simp add: T1(3) T(4) count_mset)
  then have "k \<notin> set (inorder (root T1))"
    by (simp add: count_mset count_list_0_iff)
  with BTree_delete_correct [OF T1(2), of k] have again: "BTree_delete T1 k = Some T1" by auto
  have "inorder (root T1) = remove1 k (stored [] ops)"
    using tree_ok_sorted [OF T(3)] tree_ok_sorted [OF T1(2)] T1(3) T(4)
      inorder_remove1 [of "inorder (root T)" "inorder (root T1)" k] by simp
  then have "BTree_traverse T1 = Some (remove1 k (stored [] ops))"
    using BTree_traverse_correct [OF T1(2)] by simp
  with T(1,2) T1(1) again show ?thesis by blast
qed

theorem C8_delete_twice_witness:
  "2 \<le> (3::int) \<and>
   count_list (stored [] [Insert 10, Insert 20, Insert 5, Insert 6, Insert 12]) 6 \<le> 1 \<and>
   (\<exists>T0 T T1. BTree_init 3 = Inr T0 \<and>
      run T0 [Insert 10, Insert 20, Insert 5, Insert 6, Insert 12] = Some T \<and>
      BTree_delete T 6 = Some T1 \<and> BTree_delete T1 6 = Some T1 \<and>
      BTree_traverse T1 =
        Some (remove1 6 (stored [] [Insert 10, Insert 20, Insert 5, Insert 6, Insert 12])))"
proof -
  have h: "2 \<le> (3::int)" by simp
  have c: "count_list (stored [] [Insert 10, Insert 20, Insert 5, Insert 6, Insert 12]) 6 \<le> 1"
    by code_simp
  from C8_delete_twice [OF h c] h c show ?thesis by blast
qed

theorem C8_counterexample:
  "run \<lparr>root = Node [] 2 [] True, tree_min_degree = 2\<rparr> [Insert 1, Insert 1] =
     Some \<lparr>root = Node [1, 1] 2 [] True, tree_min_degree = 2\<rparr> \<and>
   BTree_delete \<lparr>root = Node [1, 1] 2 [] True, tree_min_degree = 2\<rparr> 1 =
     Some \<lparr>root = Node [1] 2 [] True, tree_min_degree = 2\<rparr> \<and>
   BTree_delete \<lparr>root = Node [1] 2 [] True, tree_min_degree = 2\<rparr> 1 =
     Some \<lparr>root = Node [] 2 [] True, tree_min_degree = 2\<rparr> \<and>
   BTree_traverse \<lparr>root = Node [1] 2 [] True, tree_min_degree = 2\<rparr> = Some [1] \<and>
   BTree_traverse \<lparr>root = Node [] 2 [] True, tree_min_degree = 2\<rparr> = Some []"
proof (intro conjI)
  show "run \<lparr>root = Node [] 2 [] True, tree_min_degree = 2\<rparr> [Insert 1, Insert 1] =
     Some \<lparr>root = Node [1, 1] 2 [] True, tree_min_degree = 2\<rparr>"
    by code_simp
  show "BTree_delete \<lparr>root = Node [1, 1] 2 [] True, tree_min_degree = 2\<rparr> 1 =
     Some \<lparr>root = Node [1] 2 [] True, tree_min_degree = 2\<rparr>"
    by code_simp
  show "BTree_delete \<lparr>root = Node [1] 2 [] True, tree_min_degree = 2\<rparr> 1 =
     Some \<lparr>root = Node [] 2 [] True, tree_min_degree = 2\<rparr>"
    by code_simp
  show "BTree_traverse \<lparr>root = Node [1] 2 [] True, tree_min_degree = 2\<rparr> = Some [1]"
    by code_simp
  show "BTree_traverse \<lparr>root = Node [] 2 [] True, tree_min_degree = 2\<rparr> = Some []"
    by code_simp
qed

text \<open>
  C9. The two copies of the core (the class \<^verbatim>\<open>BTree\<close> of the package \<^verbatim>\<open>btree\<close> and the one
  of \<^verbatim>\<open>main.py\<close>) are observably equivalent: for every \<open>min_degree \<ge> 2\<close> and every sequence
  of insert and delete operations, both copies run without error, produce the same
  traversal, and give the same present or absent answer to every search.
\<close>

theorem C9_copies_equivalent:
  assumes "2 \<le> md"
  shows "\<exists>T0 T Tm out. BTree_init md = Inr T0 \<and>
           run T0 ops = Some T \<and> main_run T0 ops = Some Tm \<and>
           BTree_traverse T = Some out \<and> main_BTree_traverse Tm = Some out \<and>
           (\<forall>k. \<exists>r rm. BTree_search T k = Some r \<and> main_BTree_search Tm k = Some rm \<and>
                  (r = None \<longleftrightarrow> rm = None))"
proof -
  from reachable [OF assms, of ops] obtain T0 T where
    T: "BTree_init md = Inr T0" "run T0 ops = Some T" "tree_ok T"
    "inorder (root T) = stored [] ops" by blast
  from main_reachable [OF assms, of ops] T(1) obtain Tm where
    Tm: "main_run T0 ops = Some Tm" "tree_ok Tm" "inorder (root Tm) = stored [] ops" by auto
  have tr: "BTree_traverse T = Some (stored [] ops)" "main_BTree_traverse Tm = Some (stored [] ops)"
    using BTree_traverse_correct [OF T(3)] BTree_traverse_correct [OF Tm(2)] T(4) Tm(3)
    by (simp_all add: main_BTree_traverse_def BTree_traverse_def)
  have "\<forall>k. \<exists>r rm. BTree_search T k = Some r \<and> main_BTree_search Tm k = Some rm \<and>
                  (r = None \<longleftrightarrow> rm = None)"
  proof
    fix k
    from BTree_search_correct [OF T(3), of k] BTree_search_correct [OF Tm(2), of k] T(4) Tm(3)
    show "\<exists>r rm. BTree_search T k = Some r \<and> main_BTree_search Tm k = Some rm \<and>
                  (r = None \<longleftrightarrow> rm = None)"
      by (auto simp: main_BTree_search_eq)
  qed
  with T(1,2) Tm(1) tr show ?thesis by blast
qed

theorem C9_copies_equivalent_witness:
  "2 \<le> (2::int) \<and>
   (\<exists>T0 T Tm out. BTree_init 2 = Inr T0 \<and>
      run T0 [Insert 1, Insert 2, Insert 3, Insert 4, Delete 0, Insert 5, Delete 3] = Some T \<and>
      main_run T0 [Insert 1, Insert 2, Insert 3, Insert 4, Delete 0, Insert 5, Delete 3] = Some Tm \<and>
      BTree_traverse T = Some out \<and> main_BTree_traverse Tm = Some out \<and>
      (\<forall>k. \<exists>r rm. BTree_search T k = Some r \<and> main_BTree_search Tm k = Some rm \<and>
             (r = None \<longleftrightarrow> rm = None)))"
proof -
  have h: "2 \<le> (2::int)" by simp
  from C9_copies_equivalent [OF h, of "[Insert 1, Insert 2, Insert 3, Insert 4, Delete 0,
      Insert 5, Delete 3]"] h
  show ?thesis by blast
qed

text \<open>
  C10. \<^verbatim>\<open>search\<close> and \<^verbatim>\<open>traverse\<close> are pure observers: for every node and every key, a
  call leaves the node and everything below it (keys, children and leaf flags) as it was:
  the state that the call returns is the state it was given, and its result is the one of
  \<open>search\<close> and \<open>traverse\<close>. On every tree reached by inserts and deletes both calls return,
  with the root unchanged.
\<close>

theorem C10_observers_pure:
  "search_st n key = map_option (\<lambda>r. (r, n)) (search n key) \<and>
   traverse_st n = map_option (\<lambda>out. (out, n)) (traverse n) \<and>
   (2 \<le> md \<longrightarrow>
      (\<exists>T0 T r. BTree_init md = Inr T0 \<and> run T0 ops = Some T \<and>
         search_st (root T) key = Some (r, root T) \<and>
         traverse_st (root T) = Some (stored [] ops, root T)))"
proof (intro conjI impI)
  show "search_st n key = map_option (\<lambda>r. (r, n)) (search n key)" by (rule search_st_pure)
  show "traverse_st n = map_option (\<lambda>out. (out, n)) (traverse n)" by (rule traverse_st_pure(1))
next
  assume md: "2 \<le> md"
  from reachable [OF md, of ops] obtain T0 T where
    T: "BTree_init md = Inr T0" "run T0 ops = Some T" "tree_ok T"
    "inorder (root T) = stored [] ops" by blast
  from BTree_search_correct [OF T(3), of key] obtain r where
    "search (root T) key = Some r" by (auto simp: BTree_search_eq)
  then have s: "search_st (root T) key = Some (r, root T)" by (simp add: search_st_pure)
  from BTree_traverse_correct [OF T(3)] T(4)
  have "traverse (root T) = Some (stored [] ops)" by (simp add: BTree_traverse_def)
  then have "traverse_st (root T) = Some (stored [] ops, root T)"
    by (simp add: traverse_st_pure(1))
  with T(1,2) s show "\<exists>T0 T r. BTree_init md = Inr T0 \<and> run T0 ops = Some T \<and>
         search_st (root T) key = Some (r, root T) \<and>
         traverse_st (root T) = Some (stored [] ops, root T)" by blast
qed

theorem C10_observers_pure_witness:
  "search_st (Node [2] 2 [Node [1] 2 [] True, Node [3, 4] 2 [] True] False) 3 =
     map_option (\<lambda>r. (r, Node [2] 2 [Node [1] 2 [] True, Node [3, 4] 2 [] True] False))
       (search (Node [2] 2 [Node [1] 2 [] True, Node [3, 4] 2 [] True] False) 3) \<and>
   traverse_st (Node [2] 2 [Node [1] 2 [] True, Node [3, 4] 2 [] True] False) =
     map_option (\<lambda>out. (out, Node [2] 2 [Node [1] 2 [] True, Node [3, 4] 2 [] True] False))
       (traverse (Node [2] 2 [Node [1] 2 [] True, Node [3, 4] 2 [] True] False)) \<and>
   2 \<le> (2::int) \<and>
   (\<exists>T0 T r. BTree_init 2 = Inr T0 \<and>
      run T0 [Insert 1, Insert 2, Insert 3, Insert 4] = Some T \<and>
      search_st (root T) 3 = Some (r, root T) \<and>
      traverse_st (root T) = Some (stored [] [Insert 1, Insert 2, Insert 3, Insert 4], root T))"
proof -
  have h: "2 \<le> (2::int)" by simp
  from C10_observers_pure [of "Node [2] 2 [Node [1] 2 [] True, Node [3, 4] 2 [] True] False" 3 2
      "[Insert 1, Insert 2, Insert 3, Insert 4]"] h
  show ?thesis by blast
qed

end
